theory Spec2Isabelle
  imports Complex_Main
begin

section \<open>JSON values and their serialisation\<close>

text \<open>
  The proxy handles request bodies and upstream results that were produced by
  \<^verbatim>\<open>JSON.parse\<close> and serialises them again with \<^verbatim>\<open>JSON.stringify\<close> and with
  template literals. Neither is code of the repository; both are modelled here as the
  language defines them, on the following representation of a parsed value:
  \<^item> a number is represented by its canonical decimal rendering (what
    \<^verbatim>\<open>Number.prototype.toString\<close> prints for a finite number); arithmetic on numbers is
    never needed. Non-finite numbers are outside the model;
  \<^item> a string is a list of 8-bit characters;
  \<^item> an object is the list of its members in property order.
\<close>

datatype json =
    JNull
  | JBool bool
  | JNum string
  | JStr string
  | JArr "json list"
  | JObj "(string \<times> json) list"

definition hexDigit :: "nat \<Rightarrow> char" where
  "hexDigit n = ''0123456789abcdef'' ! n"

text \<open>
  \<^verbatim>\<open>QuoteJSONString\<close>, one character: the short escapes, \<^verbatim>\<open>\u00XX\<close> for the other
  control characters, the character itself otherwise.
\<close>

definition quoteJSONChar :: "char \<Rightarrow> string" where
  "quoteJSONChar c =
     (if c = CHR 0x08 then [CHR 0x5C, CHR ''b'']
      else if c = CHR 0x09 then [CHR 0x5C, CHR ''t'']
      else if c = CHR 0x0A then [CHR 0x5C, CHR ''n'']
      else if c = CHR 0x0C then [CHR 0x5C, CHR ''f'']
      else if c = CHR 0x0D then [CHR 0x5C, CHR ''r'']
      else if c = CHR 0x22 then [CHR 0x5C, CHR 0x22]
      else if c = CHR 0x5C then [CHR 0x5C, CHR 0x5C]
      else if (of_char c :: nat) < 0x20
        then [CHR 0x5C, CHR ''u'', CHR ''0'', CHR ''0'',
              hexDigit ((of_char c :: nat) div 16), hexDigit ((of_char c :: nat) mod 16)]
      else [c])"

definition quoteJSONString :: "string \<Rightarrow> string" where
  "quoteJSONString s = CHR 0x22 # concat (map quoteJSONChar s) @ [CHR 0x22]"

text \<open>\<^verbatim>\<open>JSON.stringify(v)\<close> for a parsed value \<open>v\<close> (no indentation argument).\<close>

fun JSON_stringify :: "json \<Rightarrow> string"
  and stringify_elems :: "json list \<Rightarrow> string"
  and stringify_members :: "(string \<times> json) list \<Rightarrow> string"
where
  "JSON_stringify JNull = ''null''"
| "JSON_stringify (JBool b) = (if b then ''true'' else ''false'')"
| "JSON_stringify (JNum s) = s"
| "JSON_stringify (JStr s) = quoteJSONString s"
| "JSON_stringify (JArr xs) = CHR ''['' # stringify_elems xs @ '']''"
| "JSON_stringify (JObj kvs) = CHR ''{'' # stringify_members kvs @ ''}''"
| "stringify_elems [] = []"
| "stringify_elems [x] = JSON_stringify x"
| "stringify_elems (x # y # ys) = JSON_stringify x @ CHR '','' # stringify_elems (y # ys)"
| "stringify_members [] = []"
| "stringify_members [(k, v)] = quoteJSONString k @ CHR '':'' # JSON_stringify v"
| "stringify_members ((k, v) # m # ms) =
     quoteJSONString k @ CHR '':'' # JSON_stringify v @ CHR '','' # stringify_members (m # ms)"

text \<open>
  \<^verbatim>\<open>ToString(v)\<close>, which a template literal applies to an interpolated value: a string
  is itself, an array is its elements joined by commas (\<^verbatim>\<open>null\<close> elements print as the
  empty string), an object is \<^verbatim>\<open>[object Object]\<close>.
\<close>

fun toString :: "json \<Rightarrow> string"
  and join_elems :: "json list \<Rightarrow> string"
where
  "toString JNull = ''null''"
| "toString (JBool b) = (if b then ''true'' else ''false'')"
| "toString (JNum s) = s"
| "toString (JStr s) = s"
| "toString (JArr xs) = join_elems xs"
| "toString (JObj kvs) = ''[object Object]''"
| "join_elems [] = []"
| "join_elems [x] = (if x = JNull then [] else toString x)"
| "join_elems (x # y # ys) =
     (if x = JNull then [] else toString x) @ CHR '','' # join_elems (y # ys)"

text \<open>
  A template literal \<^verbatim>\<open>`${x}`\<close> where \<open>x\<close> may be \<^verbatim>\<open>undefined\<close> (\<open>None\<close>): a missing
  property of the request body, or the result of \<^verbatim>\<open>JSON.stringify(undefined)\<close>.
\<close>

definition interpolate :: "json option \<Rightarrow> string" where
  "interpolate x = (case x of None \<Rightarrow> ''undefined'' | Some v \<Rightarrow> toString v)"

definition stringify_opt :: "json option \<Rightarrow> string option" where
  "stringify_opt x = map_option JSON_stringify x"

text \<open>
  Number renderings consist of digits, sign, point and exponent marker and start with a
  digit or a minus sign. A value is well formed when all its numbers are.
\<close>

definition wf_num :: "string \<Rightarrow> bool" where
  "wf_num s = (s \<noteq> [] \<and> hd s \<in> set ''-0123456789'' \<and> set s \<subseteq> set ''0123456789+-.e'')"

fun wf_json :: "json \<Rightarrow> bool"
  and wf_elems :: "json list \<Rightarrow> bool"
  and wf_members :: "(string \<times> json) list \<Rightarrow> bool"
where
  "wf_json JNull = True"
| "wf_json (JBool b) = True"
| "wf_json (JNum s) = wf_num s"
| "wf_json (JStr s) = True"
| "wf_json (JArr xs) = wf_elems xs"
| "wf_json (JObj kvs) = wf_members kvs"
| "wf_elems [] = True"
| "wf_elems (x # xs) = (wf_json x \<and> wf_elems xs)"
| "wf_members [] = True"
| "wf_members ((k, v) # ms) = (wf_json v \<and> wf_members ms)"

text \<open>
  Inside an array or an object a serialised value is followed by a comma or by the
  closing bracket or brace.
\<close>

definition delimited :: "string \<Rightarrow> bool" where
  "delimited r = (case r of [] \<Rightarrow> False | c # t \<Rightarrow> c \<in> set '',]}'')"

section \<open>Requests and cache keys\<close>

text \<open>
  \<^verbatim>\<open>req.body\<close>: the fields the handler reads. \<open>None\<close> is \<^verbatim>\<open>undefined\<close> (the field is
  missing from the body).
\<close>

record request =
  body_id :: "json option"
  body_method :: "json option"
  body_params :: "json option"

text \<open>\<^verbatim>\<open>getCacheKey\<close>: \<^verbatim>\<open>`${req.body.method}${JSON.stringify(req.body.params)}`\<close>.\<close>

definition getCacheKey :: "request \<Rightarrow> string" where
  "getCacheKey req =
     interpolate (body_method req) @
     (case stringify_opt (body_params req) of None \<Rightarrow> ''undefined'' | Some s \<Rightarrow> s)"

section \<open>The cache\<close>

datatype js_error =
    ReferenceError string
  | TypeError string
  | PlainError "string option"
  | DriverError string

text \<open>
  A value of the in-memory map: \<^verbatim>\<open>{ ts, val, readCnt, writeCnt }\<close>. \<open>val\<close> is whatever
  the upstream returned as \<^verbatim>\<open>result\<close>, \<open>None\<close> when that was \<^verbatim>\<open>undefined\<close>.
\<close>

record cache_entry =
  val :: "json option"
  ts :: int
  readCnt :: nat
  writeCnt :: nat

text \<open>
  The durable store: table \<^verbatim>\<open>data(key, val, ts)\<close> with \<^verbatim>\<open>key\<close> as primary key. The
  driver is an external collaborator; \<open>failing\<close> says that it reports an error to the
  callback of a statement.
\<close>

record db_row =
  row_val :: "string option"
  row_ts :: int

record database =
  rows :: "string \<rightharpoonup> db_row"
  failing :: bool

text \<open>
  The process state the request handler works on: the map \<^verbatim>\<open>cache\<close>, the handle \<^verbatim>\<open>db\<close>
  (\<open>None\<close> when \<^verbatim>\<open>DB_FILE\<close> is not set) and the map \<^verbatim>\<open>duplicateDetector\<close>.
\<close>

record state =
  cache :: "string \<rightharpoonup> cache_entry"
  db :: "database option"
  duplicateDetector :: "string \<rightharpoonup> int"

text \<open>\<^verbatim>\<open>maxAgeMs\<close>: a number of milliseconds or \<^verbatim>\<open>Infinity\<close>.\<close>

datatype maxage = Finite int | Infinity

definition within_age :: "int \<Rightarrow> int \<Rightarrow> maxage \<Rightarrow> bool" where
  "within_age now written maxAgeMs =
     (case maxAgeMs of Infinity \<Rightarrow> True | Finite m \<Rightarrow> now - written \<le> m)"

text \<open>\<^verbatim>\<open>getFromDb\<close>: the promise resolves with the row (or \<^verbatim>\<open>undefined\<close>) or rejects.\<close>

definition getFromDb :: "database \<Rightarrow> string \<Rightarrow> js_error + db_row option" where
  "getFromDb d key = (if failing d then Inl (DriverError ''read'') else Inr (rows d key))"

text \<open>
  The response envelope built for a cache hit: \<^verbatim>\<open>{ jsonrpc: "2.0", id: reqId, result }\<close>.
  \<open>result\<close> is \<open>None\<close> when the property holds \<^verbatim>\<open>undefined\<close>.
\<close>

record rpc_response =
  jsonrpc :: string
  id :: "json option"
  result :: "json option"

text \<open>
  \<^verbatim>\<open>getResponseFromCache(key, maxAgeMs, reqId)\<close> of the version with the durable store,
  in three parts. \<open>now\<close> is the reading of \<^verbatim>\<open>Date.now()\<close>, \<open>parse\<close> is \<^verbatim>\<open>JSON.parse\<close>.

  \<open>readFromDb\<close> is the body of the \<^verbatim>\<open>try\<close> block: the value it assigns to the local
  \<^verbatim>\<open>val\<close> (\<open>None\<close> when it assigns nothing), or the exception it raises. The freshness
  test there evaluates \<^verbatim>\<open>cache.get(key).ts\<close>; where \<^verbatim>\<open>cache.get(key)\<close> is
  \<^verbatim>\<open>undefined\<close>, reading \<^verbatim>\<open>ts\<close> raises a TypeError.
\<close>

definition readFromDb ::
  "(string option \<Rightarrow> js_error + json) \<Rightarrow> state \<Rightarrow> database \<Rightarrow> string \<Rightarrow> maxage \<Rightarrow> int
     \<Rightarrow> js_error + json option"
where
  "readFromDb parse st d key maxAgeMs now =
     (case getFromDb d key of
        Inl err \<Rightarrow> Inl err
      | Inr None \<Rightarrow> Inr None
      | Inr (Some row) \<Rightarrow>
          (case cache st key of
             None \<Rightarrow> Inl (TypeError ''ts'')
           | Some e \<Rightarrow>
               if within_age now (ts e) maxAgeMs
               then (case parse (row_val row) of Inl err \<Rightarrow> Inl err | Inr v \<Rightarrow> Inr (Some v))
               else Inr None))"

text \<open>
  \<open>cached_value\<close> is the value of the local \<^verbatim>\<open>val\<close> after the two branches, with the
  state they leave: the in-memory entry if the map has the key (counting the read when
  the entry is within the age limit), else the durable store if there is one. The
  \<^verbatim>\<open>catch\<close> block logs the exception and leaves \<^verbatim>\<open>val\<close> \<^verbatim>\<open>undefined\<close>.
\<close>

definition cached_value ::
  "(string option \<Rightarrow> js_error + json) \<Rightarrow> state \<Rightarrow> string \<Rightarrow> maxage \<Rightarrow> int \<Rightarrow> json option \<times> state"
where
  "cached_value parse st key maxAgeMs now =
     (case cache st key of
        Some e \<Rightarrow>
          if within_age now (ts e) maxAgeMs
          then (val e, st\<lparr>cache := (cache st)(key \<mapsto> e\<lparr>readCnt := readCnt e + 1\<rparr>)\<rparr>)
          else (None, st)
      | None \<Rightarrow>
          (case db st of
             None \<Rightarrow> (None, st)
           | Some d \<Rightarrow>
               (case readFromDb parse st d key maxAgeMs now of
                  Inl err \<Rightarrow> (None, st)
                | Inr v \<Rightarrow> (v, st))))"

text \<open>
  The function returns the envelope when \<^verbatim>\<open>val\<close> is neither \<^verbatim>\<open>undefined\<close> nor
  \<^verbatim>\<open>null\<close>, and \<^verbatim>\<open>undefined\<close> (\<open>None\<close>) otherwise.
\<close>

definition getResponseFromCache ::
  "(string option \<Rightarrow> js_error + json) \<Rightarrow> state \<Rightarrow> string \<Rightarrow> maxage \<Rightarrow> json option \<Rightarrow> int
     \<Rightarrow> rpc_response option \<times> state"
where
  "getResponseFromCache parse st key maxAgeMs reqId now =
     (case cached_value parse st key maxAgeMs now of
        (v, st') \<Rightarrow>
          (case v of
             None \<Rightarrow> (None, st')
           | Some j \<Rightarrow>
               if j \<noteq> JNull
               then (Some \<lparr>jsonrpc = ''2.0'', id = reqId, result = Some j\<rparr>, st')
               else (None, st')))"

text \<open>
  \<^verbatim>\<open>writeResponseToCache(key, val)\<close> of the version with the durable store. A failing
  driver only logs, and the row is not written.
\<close>

definition db_run :: "database \<Rightarrow> string \<Rightarrow> string option \<Rightarrow> int \<Rightarrow> database" where
  "db_run d key v t =
     (if failing d then d else d\<lparr>rows := (rows d)(key \<mapsto> \<lparr>row_val = v, row_ts = t\<rparr>)\<rparr>)"

definition writeResponseToCache :: "state \<Rightarrow> string \<Rightarrow> json option \<Rightarrow> int \<Rightarrow> state" where
  "writeResponseToCache st key v now =
     (let newValue =
            \<lparr>val = v, ts = now,
             readCnt = (case cache st key of Some e \<Rightarrow> readCnt e | None \<Rightarrow> 0),
             writeCnt = (case cache st key of Some e \<Rightarrow> writeCnt e + 1 | None \<Rightarrow> 1)\<rparr>
      in case db st of
           Some d \<Rightarrow> st\<lparr>db := Some (db_run d key (stringify_opt (val newValue)) (ts newValue))\<rparr>
         | None \<Rightarrow> st\<lparr>cache := (cache st)(key \<mapsto> newValue)\<rparr>)"

text \<open>
  \<^verbatim>\<open>getResponseFromCache\<close> of \<^verbatim>\<open>app.js\<close>, the version without the durable store: the
  envelope is returned for any entry within the age limit, whatever its value.
  (\<^verbatim>\<open>getCacheKey\<close>, \<^verbatim>\<open>upstreamHttpRequest\<close> and the duplicate check are the same,
  line by line, in both versions.)
\<close>

definition getResponseFromCache_app ::
  "state \<Rightarrow> string \<Rightarrow> maxage \<Rightarrow> json option \<Rightarrow> int \<Rightarrow> rpc_response option \<times> state"
where
  "getResponseFromCache_app st key maxAgeMs reqId now =
     (case cache st key of
        Some e \<Rightarrow>
          if within_age now (ts e) maxAgeMs
          then (Some \<lparr>jsonrpc = ''2.0'', id = reqId, result = val e\<rparr>,
                st\<lparr>cache := (cache st)(key \<mapsto> e\<lparr>readCnt := readCnt e + 1\<rparr>)\<rparr>)
          else (None, st)
      | None \<Rightarrow> (None, st))"

section \<open>Duplicate detection\<close>

definition DUPLICATE_DELAY_TRIGGER_THRESHOLD_MS :: int where
  "DUPLICATE_DELAY_TRIGGER_THRESHOLD_MS = 1000"

definition DUPLICATE_MIN_DELAY_MS :: int where
  "DUPLICATE_MIN_DELAY_MS = 500"

definition DUPLICATE_RANDOM_MAX_EXTRA_DELAY_MS :: int where
  "DUPLICATE_RANDOM_MAX_EXTRA_DELAY_MS = 1000"

text \<open>
  The duplicate check at the head of the handler. \<open>now\<close> is the reading of
  \<^verbatim>\<open>Date.now()\<close>, \<open>random\<close> the value of \<^verbatim>\<open>Math.random()\<close>. The result is the
  \<^verbatim>\<open>delayMs\<close> the handler then waits for, \<open>None\<close> when it does not wait. The check
  reads the map and writes nothing.
\<close>

definition duplicateDelay :: "(string \<rightharpoonup> int) \<Rightarrow> string \<Rightarrow> int \<Rightarrow> real \<Rightarrow> int option" where
  "duplicateDelay dd cacheKey now random =
     (case dd cacheKey of
        None \<Rightarrow> None
      | Some prevCallTs \<Rightarrow>
          if now - prevCallTs < DUPLICATE_DELAY_TRIGGER_THRESHOLD_MS
          then Some (DUPLICATE_MIN_DELAY_MS +
                     \<lfloor>random * of_int DUPLICATE_RANDOM_MAX_EXTRA_DELAY_MS\<rfloor>)
          else None)"

section \<open>The upstream call\<close>

text \<open>
  A value that the \<^verbatim>\<open>catch\<close> block hands to \<^verbatim>\<open>JSON.stringify\<close>: plain JSON data, or
  an object that refers back to itself, on which \<^verbatim>\<open>JSON.stringify\<close> throws a TypeError.
  The \<^verbatim>\<open>response\<close> of an axios failure holds the request object of the HTTP client,
  which refers back to itself through its socket.
\<close>

datatype js_value = Plain json | Circular

definition JSON_stringify_value :: "js_value \<Rightarrow> js_error + string" where
  "JSON_stringify_value v =
     (case v of
        Plain j \<Rightarrow> Inr (JSON_stringify j)
      | Circular \<Rightarrow> Inl (TypeError ''Converting circular structure to JSON''))"

text \<open>
  What \<^verbatim>\<open>axios.post\<close> rejects with: \<^verbatim>\<open>err.response\<close> and \<^verbatim>\<open>err.request\<close>, each
  \<open>None\<close> when \<^verbatim>\<open>undefined\<close>; of \<^verbatim>\<open>err.request\<close> only its \<^verbatim>\<open>data\<close> is read, which
  is \<open>None\<close> when \<^verbatim>\<open>undefined\<close>. A failure with an HTTP status (429, 500) has a
  \<^verbatim>\<open>response\<close>; a failure of the connection has none.
\<close>

record axios_error =
  err_response :: "js_value option"
  err_request :: "js_value option option"

text \<open>
  The \<^verbatim>\<open>catch\<close> block up to the test of \<^verbatim>\<open>nrRetries\<close>: the local \<^verbatim>\<open>forwardedErr\<close> it
  computes from the failure (\<open>None\<close> is \<^verbatim>\<open>undefined\<close>, the value of
  \<^verbatim>\<open>JSON.stringify(undefined)\<close>), or the exception that \<^verbatim>\<open>JSON.stringify\<close> raises
  there. Such an exception leaves the \<^verbatim>\<open>catch\<close> block, and with it the function, at
  once.
\<close>

definition forwardedErr :: "axios_error \<Rightarrow> js_error + string option" where
  "forwardedErr err =
     (case err_response err of
        Some r \<Rightarrow>
          (case JSON_stringify_value r of Inl thrown \<Rightarrow> Inl thrown | Inr s \<Rightarrow> Inr (Some s))
      | None \<Rightarrow>
          (case err_request err of
             Some (Some d) \<Rightarrow>
               (case JSON_stringify_value d of Inl thrown \<Rightarrow> Inl thrown | Inr s \<Rightarrow> Inr (Some s))
           | Some None \<Rightarrow> Inr None
           | None \<Rightarrow> Inr (Some ''unspecified'')))"

definition catch_throws :: "axios_error \<Rightarrow> bool" where
  "catch_throws err = (case forwardedErr err of Inl thrown \<Rightarrow> True | Inr f \<Rightarrow> False)"

text \<open>
  What the handler does by way of the upstream, in order: the \<open>i\<close>-th call of
  \<^verbatim>\<open>axios.post\<close> (counted from 0) and the waits between them.
\<close>

datatype event = Post nat | Sleep int

text \<open>
  \<^verbatim>\<open>upstreamHttpRequest(rpc, reqBody, nrRetries = 10, initialTimeoutMs = 2000)\<close>.
  \<open>post i\<close> is the outcome of the \<open>i\<close>-th call of \<^verbatim>\<open>axios.post\<close>: the response's
  \<^verbatim>\<open>data\<close>, or the failure. The function is only ever called with the default
  \<^verbatim>\<open>nrRetries\<close>, a natural number. On a failure the \<^verbatim>\<open>catch\<close> block first logs and
  computes \<^verbatim>\<open>forwardedErr\<close> (see above), then retries after the wait if a retry is left.

  When no retry is left the source evaluates \<^verbatim>\<open>throw Error(forwardErr)\<close>. No binding
  named \<^verbatim>\<open>forwardErr\<close> exists (the local is \<^verbatim>\<open>forwardedErr\<close>), so evaluating the
  argument raises a ReferenceError, and that is what the function throws.
\<close>

fun upstreamHttpRequest ::
  "(nat \<Rightarrow> axios_error + json) \<Rightarrow> nat \<Rightarrow> nat \<Rightarrow> int \<Rightarrow> event list \<times> (js_error + json)"
where
  "upstreamHttpRequest post i 0 initialTimeoutMs =
     (case post i of
        Inr res \<Rightarrow> ([Post i], Inr res)
      | Inl err \<Rightarrow>
          (case forwardedErr err of
             Inl thrown \<Rightarrow> ([Post i], Inl thrown)
           | Inr f \<Rightarrow> ([Post i], Inl (ReferenceError ''forwardErr is not defined''))))"
| "upstreamHttpRequest post i (Suc n) initialTimeoutMs =
     (case post i of
        Inr res \<Rightarrow> ([Post i], Inr res)
      | Inl err \<Rightarrow>
          (case forwardedErr err of
             Inl thrown \<Rightarrow> ([Post i], Inl thrown)
           | Inr f \<Rightarrow>
               (case upstreamHttpRequest post (Suc i) n (initialTimeoutMs * 2) of
                  (tr, out) \<Rightarrow> (Post i # Sleep initialTimeoutMs # tr, out))))"

definition attempts :: "event list \<Rightarrow> nat" where
  "attempts tr = length (filter (\<lambda>e. case e of Post i \<Rightarrow> True | Sleep d \<Rightarrow> False) tr)"

definition sleeps :: "event list \<Rightarrow> int list" where
  "sleeps tr = concat (map (\<lambda>e. case e of Post i \<Rightarrow> [] | Sleep d \<Rightarrow> [d]) tr)"

section \<open>The request handler\<close>

text \<open>\<^verbatim>\<open>CACHE_MAX_AGE = process.env.CACHE_MAX_AGE || 10\<close>, a number of seconds.\<close>

definition CACHE_MAX_AGE :: "int option \<Rightarrow> int" where
  "CACHE_MAX_AGE env = (case env of None \<Rightarrow> 10 | Some n \<Rightarrow> n)"

definition cacheMaxAgeMs :: "int \<Rightarrow> json option \<Rightarrow> maxage" where
  "cacheMaxAgeMs maxAgeSeconds method =
     (if method \<in> set [Some (JStr ''eth_chainId''), Some (JStr ''net_version''),
                         Some (JStr ''eth_getTransactionReceipt'')]
      then Infinity else Finite (maxAgeSeconds * 1000))"

text \<open>
  \<^verbatim>\<open>params.some(param => typeof param === 'object' && 'blockHash' in param)\<close> on the
  elements of an array: \<^verbatim>\<open>typeof null\<close> is \<^verbatim>\<open>'object'\<close> and \<^verbatim>\<open>in\<close> applied to
  \<^verbatim>\<open>null\<close> raises a TypeError; an array has no property \<^verbatim>\<open>blockHash\<close>.
\<close>

fun someBlockHash :: "json list \<Rightarrow> js_error + bool" where
  "someBlockHash [] = Inr False"
| "someBlockHash (JNull # ps) = Inl (TypeError ''in'')"
| "someBlockHash (JObj kvs # ps) =
     (if ''blockHash'' \<in> fst ` set kvs then Inr True else someBlockHash ps)"
| "someBlockHash (p # ps) = someBlockHash ps"

text \<open>
  The condition under which the handler writes the upstream result to the cache.
  \<^verbatim>\<open>req.body.params.some\<close> is a function only when \<^verbatim>\<open>params\<close> is an array; calling it
  on anything else raises a TypeError.
\<close>

definition cacheWritePredicate :: "request \<Rightarrow> js_error + bool" where
  "cacheWritePredicate req =
     (if body_method req \<in> set [Some (JStr ''eth_chainId''), Some (JStr ''eth_blockNumber''),
                                   Some (JStr ''net_version'')]
      then Inr True
      else if body_method req = Some (JStr ''eth_call'')
      then (case body_params req of
              Some (JArr ps) \<Rightarrow> someBlockHash ps
            | _ \<Rightarrow> Inl (TypeError ''some''))
      else Inr False)"

text \<open>
  \<^verbatim>\<open>rpcRes.data.result\<close>: the member \<^verbatim>\<open>result\<close> of an object, \<^verbatim>\<open>undefined\<close> for an
  object without it and for a string, number, boolean or array; a TypeError on
  \<^verbatim>\<open>null\<close>.
\<close>

definition data_result :: "json \<Rightarrow> js_error + json option" where
  "data_result d =
     (case d of
        JNull \<Rightarrow> Inl (TypeError ''result'')
      | JObj kvs \<Rightarrow> Inr (map_of kvs ''result'')
      | _ \<Rightarrow> Inr None)"

datatype reply = CachedReply rpc_response | UpstreamReply json | ErrorReply js_error

text \<open>
  The handler of \<^verbatim>\<open>POST /\<close> runs in three stretches, separated by the points where it
  waits (\<^verbatim>\<open>await\<close>); other requests are handled while it waits, so each stretch takes
  the state as it then is.
  \<^enum> The duplicate check, \<open>duplicateDelay\<close> above, applied to the key of the request.
    It ends in the wait of \<^verbatim>\<open>delayMs\<close> when there is one. Nothing is written.
  \<^enum> \<open>lookupStretch\<close>: \<^verbatim>\<open>duplicateDetector.set(cacheKey, Date.now())\<close>, the choice of
    \<^verbatim>\<open>cacheMaxAgeMs\<close> and the cache lookup. On a hit the envelope is sent; on a miss
    the handler calls the upstream and waits for it.
  \<^enum> \<open>upstreamStretch\<close>: the upstream's \<^verbatim>\<open>data\<close> is sent to the client and, under the
    write condition, its \<^verbatim>\<open>result\<close> is written to the cache; a failed upstream call
    is answered with status 500. An exception raised after the data was sent reaches
    the \<^verbatim>\<open>catch\<close> block, which writes nothing to the cache.
  The counters \<^verbatim>\<open>httpReqCnt\<close>, \<^verbatim>\<open>httpUpstreamResCnt\<close> and \<^verbatim>\<open>httpCacheResCnt\<close> are
  not part of the model.
\<close>

definition checkStretch :: "state \<Rightarrow> request \<Rightarrow> int \<Rightarrow> real \<Rightarrow> int option \<times> state" where
  "checkStretch st req now random =
     (duplicateDelay (duplicateDetector st) (getCacheKey req) now random, st)"

definition lookupStretch ::
  "(string option \<Rightarrow> js_error + json) \<Rightarrow> int \<Rightarrow> state \<Rightarrow> request \<Rightarrow> int \<Rightarrow> int
     \<Rightarrow> rpc_response option \<times> state"
where
  "lookupStretch parse maxAgeSeconds st req tRecord tLookup =
     (let cacheKey = getCacheKey req;
          st1 = st\<lparr>duplicateDetector := (duplicateDetector st)(cacheKey \<mapsto> tRecord)\<rparr>;
          maxAgeMs = cacheMaxAgeMs maxAgeSeconds (body_method req)
      in getResponseFromCache parse st1 cacheKey maxAgeMs (body_id req) tLookup)"

definition upstreamStretch :: "state \<Rightarrow> request \<Rightarrow> js_error + json \<Rightarrow> int \<Rightarrow> reply \<times> state" where
  "upstreamStretch st req rpcRes tWrite =
     (case rpcRes of
        Inl err \<Rightarrow> (ErrorReply err, st)
      | Inr d \<Rightarrow>
          (case cacheWritePredicate req of
             Inr True \<Rightarrow>
               (case data_result d of
                  Inr v \<Rightarrow> (UpstreamReply d, writeResponseToCache st (getCacheKey req) v tWrite)
                | Inl err \<Rightarrow> (UpstreamReply d, st))
           | Inr False \<Rightarrow> (UpstreamReply d, st)
           | Inl err \<Rightarrow> (UpstreamReply d, st)))"

text \<open>
  One request handled with no other request in between: the delay the request waited
  for (\<open>None\<close> when it did not wait), the calls to the upstream and the waits between
  them, the reply sent and the state left. \<open>tCheck\<close>, \<open>tRecord\<close>, \<open>tLookup\<close> and
  \<open>tWrite\<close> are the readings of \<^verbatim>\<open>Date.now()\<close> in the duplicate check, in
  \<^verbatim>\<open>duplicateDetector.set\<close>, in \<open>getResponseFromCache\<close> and in \<open>writeResponseToCache\<close>.
\<close>

record outcome =
  waited :: "int option"
  upstream :: "event list"
  sent :: reply
  after :: state

definition handlePost ::
  "(string option \<Rightarrow> js_error + json) \<Rightarrow> int \<Rightarrow> (nat \<Rightarrow> axios_error + json) \<Rightarrow> state \<Rightarrow> request
     \<Rightarrow> int \<Rightarrow> real \<Rightarrow> int \<Rightarrow> int \<Rightarrow> int \<Rightarrow> outcome"
where
  "handlePost parse maxAgeSeconds post st req tCheck random tRecord tLookup tWrite =
     (case checkStretch st req tCheck random of
        (delayMs, st0) \<Rightarrow>
          (case lookupStretch parse maxAgeSeconds st0 req tRecord tLookup of
             (Some cachedResponse, st1) \<Rightarrow>
               \<lparr>waited = delayMs, upstream = [], sent = CachedReply cachedResponse, after = st1\<rparr>
           | (None, st1) \<Rightarrow>
               (case upstreamHttpRequest post 0 10 2000 of
                  (tr, rpcRes) \<Rightarrow>
                    (case upstreamStretch st1 req rpcRes tWrite of
                       (r, st2) \<Rightarrow> \<lparr>waited = delayMs, upstream = tr, sent = r, after = st2\<rparr>))))"

section \<open>Sequences of cache operations\<close>

text \<open>
  The two operations on the cache, each with the clock reading it is made at, and a
  sequence of them applied in order.
\<close>

datatype cache_op =
    Get string maxage "json option" int
  | Put string "json option" int

fun op_time :: "cache_op \<Rightarrow> int" where
  "op_time (Get key maxAgeMs reqId now) = now"
| "op_time (Put key v now) = now"

fun apply_op :: "(string option \<Rightarrow> js_error + json) \<Rightarrow> state \<Rightarrow> cache_op \<Rightarrow> state" where
  "apply_op parse st (Get key maxAgeMs reqId now) =
     snd (getResponseFromCache parse st key maxAgeMs reqId now)"
| "apply_op parse st (Put key v now) = writeResponseToCache st key v now"

definition run_ops :: "(string option \<Rightarrow> js_error + json) \<Rightarrow> state \<Rightarrow> cache_op list \<Rightarrow> state" where
  "run_ops parse st ops = foldl (apply_op parse) st ops"

section \<open>Equality of JSON values up to the order of object members\<close>

text \<open>
  Two values are the same up to member order when they agree on every scalar, arrays
  agree element by element, and each member of either object has a member of the same
  name and the same value (up to member order) in the other.
\<close>

inductive json_same :: "json \<Rightarrow> json \<Rightarrow> bool"
  and elems_same :: "json list \<Rightarrow> json list \<Rightarrow> bool"
  and member_in :: "string \<Rightarrow> json \<Rightarrow> (string \<times> json) list \<Rightarrow> bool"
  and members_sub :: "(string \<times> json) list \<Rightarrow> (string \<times> json) list \<Rightarrow> bool"
where
  same_null: "json_same JNull JNull"
| same_bool: "json_same (JBool b) (JBool b)"
| same_num: "json_same (JNum s) (JNum s)"
| same_str: "json_same (JStr s) (JStr s)"
| same_arr: "elems_same xs ys \<Longrightarrow> json_same (JArr xs) (JArr ys)"
| same_obj: "members_sub a b \<Longrightarrow> members_sub b a \<Longrightarrow> json_same (JObj a) (JObj b)"
| elems_nil: "elems_same [] []"
| elems_cons: "json_same x y \<Longrightarrow> elems_same xs ys \<Longrightarrow> elems_same (x # xs) (y # ys)"
| member_here: "json_same v v' \<Longrightarrow> member_in k v ((k, v') # ms)"
| member_there: "member_in k v ms \<Longrightarrow> member_in k v (m # ms)"
| sub_nil: "members_sub [] b"
| sub_cons: "member_in k v b \<Longrightarrow> members_sub ms b \<Longrightarrow> members_sub ((k, v) # ms) b"

text \<open>
  A request whose upstream result the handler writes to the cache, and the call it
  makes: its method and its parameters.
\<close>

definition cacheable :: "request \<Rightarrow> bool" where
  "cacheable req = (cacheWritePredicate req = Inr True)"

definition wf_params :: "request \<Rightarrow> bool" where
  "wf_params req = (case body_params req of None \<Rightarrow> True | Some p \<Rightarrow> wf_json p)"

definition call_of :: "request \<Rightarrow> json option \<times> json option" where
  "call_of req = (body_method req, body_params req)"

section \<open>Auxiliary facts\<close>

subsection \<open>The lookup inside the handler\<close>

lemma lookup_ignores_detector:
  "fst (getResponseFromCache parse (st\<lparr>duplicateDetector := dd\<rparr>) key maxAgeMs reqId now) =
   fst (getResponseFromCache parse st key maxAgeMs reqId now)"
  by (simp add: getResponseFromCache_def cached_value_def readFromDb_def split: option.splits sum.splits)

lemma lookupStretch_reply:
  "fst (lookupStretch parse m st req tRecord tLookup) =
   fst (getResponseFromCache parse st (getCacheKey req) (cacheMaxAgeMs m (body_method req))
          (body_id req) tLookup)"
  by (simp add: lookupStretch_def Let_def lookup_ignores_detector)

lemma upstreamStretch_not_cached: "fst (upstreamStretch st req rpcRes tWrite) \<noteq> CachedReply c"
  by (simp add: upstreamStretch_def split: sum.splits bool.splits)

lemma upstream_first_event:
  "\<exists>tr. fst (upstreamHttpRequest post i n t) = Post i # tr"
  by (cases n) (auto split: sum.splits prod.splits)

lemma handlePost_miss:
  assumes "fst (lookupStretch parse m st req tRecord tLookup) = None"
  shows "upstream (handlePost parse m post st req tCheck random tRecord tLookup tWrite) =
           fst (upstreamHttpRequest post 0 10 2000)
         \<and> sent (handlePost parse m post st req tCheck random tRecord tLookup tWrite) \<noteq> CachedReply c"
proof -
  obtain st1 where l: "lookupStretch parse m st req tRecord tLookup = (None, st1)"
    using assms by (cases "lookupStretch parse m st req tRecord tLookup") simp
  obtain tr rpcRes where u: "upstreamHttpRequest post 0 10 2000 = (tr, rpcRes)"
    by (cases "upstreamHttpRequest post 0 10 2000")
  obtain r st2 where s: "upstreamStretch st1 req rpcRes tWrite = (r, st2)"
    by (cases "upstreamStretch st1 req rpcRes tWrite")
  have "r \<noteq> CachedReply c" using upstreamStretch_not_cached[of st1 req rpcRes tWrite c] s by simp
  then show ?thesis by (simp add: handlePost_def checkStretch_def l u s)
qed

subsection \<open>An upstream that always fails\<close>

text \<open>
  The exception of the \<^verbatim>\<open>catch\<close> block, when it raises one; the events of the call and
  its result when it raises none, for any number of retries and any first wait; and the
  two results that are possible in all.
\<close>

lemma forwardedErr_thrown:
  assumes "forwardedErr err = Inl thrown"
  shows "thrown = TypeError ''Converting circular structure to JSON''"
  using assms
  by (auto simp: forwardedErr_def JSON_stringify_value_def
      split: option.splits js_value.splits sum.splits)

lemma catch_throws_iff:
  "catch_throws err \<longleftrightarrow>
     forwardedErr err = Inl (TypeError ''Converting circular structure to JSON'')"
proof (cases "forwardedErr err")
  case (Inl thrown)
  then show ?thesis using forwardedErr_thrown[OF Inl] by (simp add: catch_throws_def)
next
  case (Inr f)
  then show ?thesis by (simp add: catch_throws_def)
qed

lemma upstream_first_throw:
  assumes "catch_throws (errs i)"
  shows "upstreamHttpRequest (\<lambda>j. Inl (errs j)) i n t =
           ([Post i], Inl (TypeError ''Converting circular structure to JSON''))"
  using assms by (cases n) (simp_all add: catch_throws_iff)

lemma upstream_trace_failing:
  assumes "\<And>k. k \<le> n \<Longrightarrow> \<not> catch_throws (errs (i + k))"
  shows "upstreamHttpRequest (\<lambda>j. Inl (errs j)) i n t =
     (concat (map (\<lambda>k. [Post (i + k), Sleep (t * 2 ^ k)]) [0..<n]) @ [Post (i + n)],
      Inl (ReferenceError ''forwardErr is not defined''))"
  using assms
proof (induction n arbitrary: i t)
  case 0
  have "\<not> catch_throws (errs i)" using "0.prems"[of 0] by simp
  then show ?case by (simp add: catch_throws_def split: sum.splits)
next
  case (Suc n)
  have here: "\<not> catch_throws (errs i)" using Suc.prems[of 0] by simp
  have later: "\<not> catch_throws (errs (Suc i + k))" if "k \<le> n" for k
    using Suc.prems[of "Suc k"] that by simp
  have "map (\<lambda>k. [Post (i + k), Sleep (t * 2 ^ k)]) [0..<Suc n] =
        [Post i, Sleep t] # map (\<lambda>k. [Post (Suc i + k), Sleep (t * 2 * 2 ^ k)]) [0..<n]"
    by (simp add: upt_conv_Cons map_Suc_upt[symmetric] del: upt_Suc)
  then show ?case using Suc.IH[of "Suc i" "t * 2", OF later] here
    by (simp add: catch_throws_def split: sum.splits del: upt_Suc)
qed

lemma upstream_failing_result:
  "snd (upstreamHttpRequest (\<lambda>j. Inl (errs j)) i n t)
     = Inl (ReferenceError ''forwardErr is not defined'')
   \<or> snd (upstreamHttpRequest (\<lambda>j. Inl (errs j)) i n t)
     = Inl (TypeError ''Converting circular structure to JSON'')"
proof (induction n arbitrary: i t)
  case 0
  show ?case
  proof (cases "forwardedErr (errs i)")
    case (Inl thrown)
    then show ?thesis using forwardedErr_thrown[OF Inl] by simp
  next
    case (Inr f)
    then show ?thesis by simp
  qed
next
  case (Suc n)
  show ?case
  proof (cases "forwardedErr (errs i)")
    case (Inl thrown)
    then show ?thesis using forwardedErr_thrown[OF Inl] by simp
  next
    case (Inr f)
    then show ?thesis using Suc.IH[of "Suc i" "t * 2"] by (auto split: prod.splits)
  qed
qed

text \<open>
  For every upstream: the number of attempts is bounded, there is one wait less than
  attempts, and the waits double from the first one.
\<close>

lemma attempts_bound: "attempts (fst (upstreamHttpRequest post i n t)) \<le> Suc n"
proof (induction n arbitrary: i t)
  case 0
  show ?case by (simp add: attempts_def split: sum.splits)
next
  case (Suc n)
  obtain tr out where u: "upstreamHttpRequest post (Suc i) n (t * 2) = (tr, out)"
    by (cases "upstreamHttpRequest post (Suc i) n (t * 2)")
  have "attempts tr \<le> Suc n" using Suc.IH[of "Suc i" "t * 2"] u by simp
  then show ?case using u by (simp add: attempts_def split: sum.splits)
qed

lemma waits_count:
  "length (sleeps (fst (upstreamHttpRequest post i n t)))
     = attempts (fst (upstreamHttpRequest post i n t)) - 1"
proof (induction n arbitrary: i t)
  case 0
  show ?case by (simp add: attempts_def sleeps_def split: sum.splits)
next
  case (Suc n)
  obtain tr out where u: "upstreamHttpRequest post (Suc i) n (t * 2) = (tr, out)"
    by (cases "upstreamHttpRequest post (Suc i) n (t * 2)")
  obtain tr' where f: "tr = Post (Suc i) # tr'"
    using upstream_first_event[of post "Suc i" n "t * 2"] u by auto
  have ih: "length (sleeps tr) = attempts tr - 1" using Suc.IH[of "Suc i" "t * 2"] u by simp
  show ?case
  proof (cases "post i")
    case (Inr res)
    then show ?thesis by (simp add: attempts_def sleeps_def)
  next
    case (Inl err)
    show ?thesis
    proof (cases "forwardedErr err")
      case (Inl thrown)
      then show ?thesis using \<open>post i = Inl err\<close> by (simp add: attempts_def sleeps_def)
    next
      case (Inr msg)
      then show ?thesis using \<open>post i = Inl err\<close> u f ih by (simp add: attempts_def sleeps_def)
    qed
  qed
qed

lemma waits_double:
  assumes "k < length (sleeps (fst (upstreamHttpRequest post i n t)))"
  shows "sleeps (fst (upstreamHttpRequest post i n t)) ! k = t * 2 ^ k"
  using assms
proof (induction n arbitrary: i t k)
  case 0
  then show ?case by (simp add: sleeps_def split: sum.splits)
next
  case (Suc n)
  obtain tr out where u: "upstreamHttpRequest post (Suc i) n (t * 2) = (tr, out)"
    by (cases "upstreamHttpRequest post (Suc i) n (t * 2)")
  show ?case
  proof (cases "post i")
    case (Inr res)
    then show ?thesis using Suc.prems by (simp add: sleeps_def)
  next
    case (Inl err)
    show ?thesis
    proof (cases "forwardedErr err")
      case (Inl thrown)
      then show ?thesis using \<open>post i = Inl err\<close> Suc.prems by (simp add: sleeps_def)
    next
      case (Inr msg)
      then have s: "sleeps (fst (upstreamHttpRequest post i (Suc n) t)) = t # sleeps tr"
        using \<open>post i = Inl err\<close> u by (simp add: sleeps_def)
      show ?thesis
      proof (cases k)
        case 0
        then show ?thesis using s by simp
      next
        case (Suc j)
        then have "j < length (sleeps tr)" using Suc.prems s by simp
        then have "sleeps tr ! j = t * 2 * 2 ^ j" using Suc.IH[of j "Suc i" "t * 2"] u by simp
        then show ?thesis using s Suc by simp
      qed
    qed
  qed
qed

subsection \<open>What a lookup and a write do to the state\<close>

lemma lookup_absent:
  assumes "cache st key = None"
  shows "getResponseFromCache parse st key maxAgeMs reqId now = (None, st)"
  using assms
  by (simp add: getResponseFromCache_def cached_value_def readFromDb_def split: option.splits sum.splits)

lemma lookup_state:
  "snd (getResponseFromCache parse st key maxAgeMs reqId now) =
     (case cache st key of
        Some e \<Rightarrow>
          if within_age now (ts e) maxAgeMs
          then st\<lparr>cache := (cache st)(key \<mapsto> e\<lparr>readCnt := readCnt e + 1\<rparr>)\<rparr>
          else st
      | None \<Rightarrow> st)"
  by (simp add: getResponseFromCache_def cached_value_def readFromDb_def split: option.splits sum.splits)

lemma lookup_served:
  "fst (getResponseFromCache parse st key maxAgeMs reqId now) =
     (case cache st key of
        Some e \<Rightarrow>
          if within_age now (ts e) maxAgeMs \<and> val e \<noteq> None \<and> val e \<noteq> Some JNull
          then Some \<lparr>jsonrpc = ''2.0'', id = reqId, result = val e\<rparr>
          else None
      | None \<Rightarrow> None)"
  by (auto simp add: getResponseFromCache_def cached_value_def readFromDb_def split: option.splits sum.splits)

lemma lookup_keeps_detector:
  "duplicateDetector (snd (getResponseFromCache parse st key maxAgeMs reqId now)) = duplicateDetector st"
  by (simp add: lookup_state split: option.splits)

lemma write_keeps_detector:
  "duplicateDetector (writeResponseToCache st key v now) = duplicateDetector st"
  by (simp add: writeResponseToCache_def Let_def split: option.splits)

lemma write_durable:
  assumes "db st = Some d"
  shows "writeResponseToCache st key v now = st\<lparr>db := Some (db_run d key (stringify_opt v) now)\<rparr>"
  using assms by (simp add: writeResponseToCache_def Let_def)

lemma write_in_memory:
  assumes "db st = None"
  shows "writeResponseToCache st key v now =
           st\<lparr>cache := (cache st)(key \<mapsto>
                \<lparr>val = v, ts = now,
                 readCnt = (case cache st key of Some e \<Rightarrow> readCnt e | None \<Rightarrow> 0),
                 writeCnt = (case cache st key of Some e \<Rightarrow> writeCnt e + 1 | None \<Rightarrow> 1)\<rparr>)\<rparr>"
  using assms by (simp add: writeResponseToCache_def Let_def)

lemma upstreamStretch_keeps_detector:
  "duplicateDetector (snd (upstreamStretch st req rpcRes tWrite)) = duplicateDetector st"
  by (simp add: upstreamStretch_def write_keeps_detector split: sum.splits bool.splits)

lemma upstreamStretch_durable:
  assumes "db st = Some d"
  shows "cache (snd (upstreamStretch st req rpcRes tWrite)) = cache st
         \<and> db (snd (upstreamStretch st req rpcRes tWrite)) \<noteq> None"
  using assms by (simp add: upstreamStretch_def write_durable split: sum.splits bool.splits)

lemma handlePost_after:
  "after (handlePost parse m post st req tCheck random tRecord tLookup tWrite) =
     (case lookupStretch parse m st req tRecord tLookup of
        (Some c, st1) \<Rightarrow> st1
      | (None, st1) \<Rightarrow> snd (upstreamStretch st1 req (snd (upstreamHttpRequest post 0 10 2000)) tWrite))"
  by (simp add: handlePost_def checkStretch_def split: prod.splits option.splits)

lemma lookupStretch_state:
  "snd (lookupStretch parse m st req tRecord tLookup) =
     snd (getResponseFromCache parse
            (st\<lparr>duplicateDetector := (duplicateDetector st)(getCacheKey req \<mapsto> tRecord)\<rparr>)
            (getCacheKey req) (cacheMaxAgeMs m (body_method req)) (body_id req) tLookup)"
  by (simp add: lookupStretch_def Let_def)

lemma handlePost_detector:
  "duplicateDetector (after (handlePost parse m post st req tCheck random tRecord tLookup tWrite))
     (getCacheKey req) = Some tRecord"
proof -
  have "duplicateDetector (snd (lookupStretch parse m st req tRecord tLookup)) (getCacheKey req)
          = Some tRecord"
    by (simp add: lookupStretch_state lookup_keeps_detector)
  then show ?thesis
    by (cases "lookupStretch parse m st req tRecord tLookup")
       (simp add: handlePost_after upstreamStretch_keeps_detector split: option.splits)
qed

lemma handlePost_miss_calls_upstream:
  assumes "fst (lookupStretch parse m st req tRecord tLookup) = None"
  shows "\<exists>tr. upstream (handlePost parse m post st req tCheck random tRecord tLookup tWrite) = Post 0 # tr"
  using handlePost_miss[OF assms, of post tCheck random tWrite] upstream_first_event[of post 0 10 2000]
  by simp

subsection \<open>Timestamps along a sequence of operations\<close>

text \<open>
  As long as no operation is made at a time earlier than the timestamps stored, an entry
  stays in the map and its timestamp does not decrease.
\<close>

lemma apply_op_entry:
  assumes "cache st k = Some e" and "ts e \<le> op_time x"
  shows "\<exists>e'. cache (apply_op parse st x) k = Some e' \<and> ts e \<le> ts e'"
proof (cases x)
  case (Get key maxAgeMs reqId now)
  then show ?thesis using assms by (auto simp: lookup_state split: option.splits)
next
  case (Put key v now)
  then show ?thesis using assms
    by (cases "db st") (auto simp: write_in_memory write_durable)
qed

lemma apply_op_stamps:
  assumes "\<forall>k e. cache st k = Some e \<longrightarrow> ts e \<le> t" and "t \<le> op_time x"
  shows "\<forall>k e. cache (apply_op parse st x) k = Some e \<longrightarrow> ts e \<le> op_time x"
proof (cases x)
  case (Get key maxAgeMs reqId now)
  then show ?thesis using assms by (fastforce simp: lookup_state split: option.splits if_splits)
next
  case (Put key v now)
  then show ?thesis using assms
    by (cases "db st") (fastforce simp: write_in_memory write_durable split: if_splits)+
qed

lemma run_ops_step: "run_ops parse st (x # xs) = run_ops parse (apply_op parse st x) xs"
  by (simp add: run_ops_def)

lemma run_ops_append: "run_ops parse st (xs @ ys) = run_ops parse (run_ops parse st xs) ys"
  by (simp add: run_ops_def)

lemma run_ops_stamps:
  assumes "\<forall>k e. cache st k = Some e \<longrightarrow> ts e \<le> t"
    and "sorted (t # map op_time ops)"
  shows "\<forall>k e. cache (run_ops parse st ops) k = Some e \<longrightarrow> ts e \<le> last (t # map op_time ops)"
  using assms
proof (induction ops arbitrary: st t)
  case Nil
  then show ?case by (simp add: run_ops_def)
next
  case (Cons x xs)
  have tx: "t \<le> op_time x" using Cons.prems(2) by simp
  have st1: "\<forall>k e. cache (apply_op parse st x) k = Some e \<longrightarrow> ts e \<le> op_time x"
    using apply_op_stamps[OF Cons.prems(1) tx] .
  have srt: "sorted (op_time x # map op_time xs)" using Cons.prems(2) by simp
  show ?case using Cons.IH[OF st1 srt] by (simp add: run_ops_step)
qed

lemma run_ops_entry:
  assumes "\<forall>k e. cache st k = Some e \<longrightarrow> ts e \<le> t"
    and "sorted (t # map op_time ops)"
    and "cache st k = Some e"
  shows "\<exists>e'. cache (run_ops parse st ops) k = Some e' \<and> ts e \<le> ts e'"
  using assms
proof (induction ops arbitrary: st t e)
  case Nil
  then show ?case by (simp add: run_ops_def)
next
  case (Cons x xs)
  have tx: "t \<le> op_time x" using Cons.prems(2) by simp
  have "ts e \<le> t" using Cons.prems(1,3) by blast
  then obtain e1 where e1: "cache (apply_op parse st x) k = Some e1" "ts e \<le> ts e1"
    using apply_op_entry[of st k e x parse] Cons.prems(3) tx by auto
  have st1: "\<forall>k e. cache (apply_op parse st x) k = Some e \<longrightarrow> ts e \<le> op_time x"
    using apply_op_stamps[OF Cons.prems(1) tx] .
  have srt: "sorted (op_time x # map op_time xs)" using Cons.prems(2) by simp
  obtain e' where "cache (run_ops parse (apply_op parse st x) xs) k = Some e'" "ts e1 \<le> ts e'"
    using Cons.IH[OF st1 srt e1(1)] by blast
  then show ?case using e1(2) by (auto simp: run_ops_step)
qed

lemma sorted_last_append:
  "sorted (t # xs @ ys) \<Longrightarrow> sorted (last (t # xs) # (ys :: int list))"
  by (induction xs arbitrary: t) auto

lemma written_at_monotone:
  assumes "\<forall>k e. cache st k = Some e \<longrightarrow> ts e \<le> t"
    and "sorted (t # map op_time (ops1 @ ops2))"
    and "cache (run_ops parse st ops1) k = Some e1"
  shows "\<exists>e2. cache (run_ops parse st (ops1 @ ops2)) k = Some e2 \<and> ts e1 \<le> ts e2"
proof -
  let ?t1 = "last (t # map op_time ops1)"
  have s1: "sorted (t # map op_time ops1)" using assms(2) by (simp add: sorted_append)
  have inv: "\<forall>k e. cache (run_ops parse st ops1) k = Some e \<longrightarrow> ts e \<le> ?t1"
    using run_ops_stamps[OF assms(1) s1] .
  have s2: "sorted (?t1 # map op_time ops2)"
    using sorted_last_append[of t "map op_time ops1" "map op_time ops2"] assms(2) by simp
  show ?thesis using run_ops_entry[OF inv s2 assms(3)] by (simp add: run_ops_append)
qed

subsection \<open>An upstream that answers at once\<close>

lemma upstream_success_first:
  assumes "post i = Inr d"
  shows "upstreamHttpRequest post i n t = ([Post i], Inr d)"
  using assms by (cases n) simp_all

lemma handlePost_sent:
  "sent (handlePost parse m post st req tCheck random tRecord tLookup tWrite) =
     (case lookupStretch parse m st req tRecord tLookup of
        (Some c, st1) \<Rightarrow> CachedReply c
      | (None, st1) \<Rightarrow> fst (upstreamStretch st1 req (snd (upstreamHttpRequest post 0 10 2000)) tWrite))"
  by (simp add: handlePost_def checkStretch_def split: prod.splits option.splits)

subsection \<open>Serialisation determines the value\<close>

text \<open>
  An escaped character, a quoted string, a number rendering and then a whole value can be
  read back from the front of a text in one way only, provided a delimiter follows the
  value.
\<close>

lemma hexDigit_inj:
  assumes "i < 16" "j < 16" "hexDigit i = hexDigit j"
  shows "i = j"
proof -
  have d: "distinct ''0123456789abcdef''" by simp
  have l: "length ''0123456789abcdef'' = 16" by simp
  show ?thesis using assms nth_eq_iff_index_eq[OF d, of i j] unfolding hexDigit_def l by simp
qed

lemma divmod16_inj:
  assumes "(a::nat) div 16 = b div 16" "a mod 16 = b mod 16"
  shows "a = b"
  using assms by (metis div_mult_mod_eq)

lemma quoteJSONChar_nonempty: "quoteJSONChar c \<noteq> []"
  by (simp add: quoteJSONChar_def)

lemma quoteJSONChar_head: "hd (quoteJSONChar c) \<noteq> CHR 0x22"
  by (simp add: quoteJSONChar_def)

lemma quoteJSONChar_unique:
  assumes "quoteJSONChar c @ r = quoteJSONChar c' @ r'"
  shows "c = c' \<and> r = r'"
proof -
  have u: "c = c'"
    if "(of_char c :: nat) < 0x20" "(of_char c' :: nat) < 0x20"
      "hexDigit ((of_char c :: nat) div 16) = hexDigit ((of_char c' :: nat) div 16)"
      "hexDigit ((of_char c :: nat) mod 16) = hexDigit ((of_char c' :: nat) mod 16)"
  proof -
    have "(of_char c :: nat) div 16 = of_char c' div 16"
      using that(1,2,3) by (intro hexDigit_inj) auto
    moreover have "(of_char c :: nat) mod 16 = of_char c' mod 16"
      using that(4) by (intro hexDigit_inj) auto
    ultimately have "(of_char c :: nat) = of_char c'" by (rule divmod16_inj)
    then show ?thesis by simp
  qed
  show ?thesis using assms u
    by (auto simp: quoteJSONChar_def split: if_splits)
qed

lemma quoted_chars_unique:
  assumes "concat (map quoteJSONChar s) @ CHR 0x22 # r = concat (map quoteJSONChar s') @ CHR 0x22 # r'"
  shows "s = s' \<and> r = r'"
  using assms
proof (induction s arbitrary: s')
  case Nil
  show ?case
  proof (cases s')
    case Nil
    then show ?thesis using Nil.prems by simp
  next
    case (Cons c t)
    obtain x u where "quoteJSONChar c = x # u" "x \<noteq> CHR 0x22"
      using quoteJSONChar_nonempty[of c] quoteJSONChar_head[of c]
      by (cases "quoteJSONChar c") auto
    then show ?thesis using Nil.prems Cons by simp
  qed
next
  case (Cons a s)
  show ?case
  proof (cases s')
    case Nil
    obtain x u where "quoteJSONChar a = x # u" "x \<noteq> CHR 0x22"
      using quoteJSONChar_nonempty[of a] quoteJSONChar_head[of a]
      by (cases "quoteJSONChar a") auto
    then show ?thesis using Cons.prems Nil by simp
  next
    case (Cons c t)
    have "quoteJSONChar a @ (concat (map quoteJSONChar s) @ CHR 0x22 # r)
        = quoteJSONChar c @ (concat (map quoteJSONChar t) @ CHR 0x22 # r')"
      using Cons.prems Cons by simp
    then have "a = c" "concat (map quoteJSONChar s) @ CHR 0x22 # r
          = concat (map quoteJSONChar t) @ CHR 0x22 # r'"
      using quoteJSONChar_unique by blast+
    then show ?thesis using Cons.IH[of t] Cons by simp
  qed
qed

lemma quoteJSONString_unique:
  assumes "quoteJSONString s @ r = quoteJSONString s' @ r'"
  shows "s = s' \<and> r = r'"
  using assms quoted_chars_unique[of s r s' r'] by (simp add: quoteJSONString_def)

lemma number_unique:
  assumes "set s \<subseteq> set ''0123456789+-.e''" "set s' \<subseteq> set ''0123456789+-.e''"
    and "delimited r" "delimited r'" and "s @ r = s' @ r'"
  shows "s = s' \<and> r = r'"
  using assms
proof (induction s arbitrary: s')
  case Nil
  then show ?case by (cases s'; cases r) (auto simp: delimited_def)
next
  case (Cons a s)
  then show ?case by (cases s'; cases r') (auto simp: delimited_def)
qed

lemma stringify_head:
  assumes "wf_json v"
  shows "\<exists>c t. JSON_stringify v = c # t \<and> c \<notin> set '',]}''
           \<and> c = (case v of JNull \<Rightarrow> CHR ''n'' | JBool b \<Rightarrow> (if b then CHR ''t'' else CHR ''f'')
                   | JNum s \<Rightarrow> hd s | JStr s \<Rightarrow> CHR 0x22 | JArr xs \<Rightarrow> CHR ''[''
                   | JObj kvs \<Rightarrow> CHR ''{'')"
proof (cases v)
  case (JNum s)
  then have "wf_num s" using assms by simp
  then show ?thesis using JNum by (cases s) (auto simp: wf_num_def)
qed (simp_all add: quoteJSONString_def)

lemma stringify_elems_cons:
  "stringify_elems (x # xs) =
     JSON_stringify x @ (if xs = [] then [] else CHR '','' # stringify_elems xs)"
  by (cases xs) simp_all

lemma stringify_members_cons:
  "stringify_members ((k, v) # ms) =
     quoteJSONString k @ CHR '':'' # JSON_stringify v
       @ (if ms = [] then [] else CHR '','' # stringify_members ms)"
  by (cases ms) simp_all

lemma wf_elems_iff: "wf_elems xs \<longleftrightarrow> (\<forall>x\<in>set xs. wf_json x)"
  by (induction xs) auto

lemma wf_members_iff: "wf_members ms \<longleftrightarrow> (\<forall>(k, v)\<in>set ms. wf_json v)"
  by (induction ms) auto

lemma elems_unique:
  assumes step: "\<And>x v' r r'. x \<in> set xs \<Longrightarrow> wf_json v' \<Longrightarrow> delimited r \<Longrightarrow> delimited r' \<Longrightarrow>
             JSON_stringify x @ r = JSON_stringify v' @ r' \<Longrightarrow> x = v' \<and> r = r'"
    and "wf_elems xs" and "wf_elems xs'"
    and "stringify_elems xs @ CHR '']'' # r = stringify_elems xs' @ CHR '']'' # r'"
  shows "xs = xs' \<and> r = r'"
  using assms
proof (induction xs arbitrary: xs')
  case Nil
  show ?case
  proof (cases xs')
    case Nil
    then show ?thesis using Nil.prems by simp
  next
    case (Cons y ys)
    then have "wf_json y" using Nil.prems by simp
    then obtain c t where "JSON_stringify y = c # t" "c \<notin> set '',]}''"
      using stringify_head by blast
    then show ?thesis using Nil.prems(4) Cons by (simp add: stringify_elems_cons)
  qed
next
  case (Cons x xs)
  have wx: "wf_json x" using Cons.prems(2) by simp
  show ?case
  proof (cases xs')
    case Nil
    obtain c t where "JSON_stringify x = c # t" "c \<notin> set '',]}''"
      using stringify_head[OF wx] by blast
    then show ?thesis using Cons.prems(4) Nil by (simp add: stringify_elems_cons)
  next
    case (Cons y ys)
    let ?k = "(if xs = [] then [] else CHR '','' # stringify_elems xs) @ CHR '']'' # r"
    let ?k' = "(if ys = [] then [] else CHR '','' # stringify_elems ys) @ CHR '']'' # r'"
    have wy: "wf_json y" "wf_elems ys" using Cons.prems(3) Cons by simp_all
    have eq: "JSON_stringify x @ ?k = JSON_stringify y @ ?k'"
      using Cons.prems(4) Cons by (simp add: stringify_elems_cons)
    have dk: "delimited ?k" "delimited ?k'" by (simp_all add: delimited_def)
    have xy: "x = y" and kk: "?k = ?k'"
      using Cons.prems(1)[of x y ?k ?k'] wy(1) dk eq by simp_all
    have rest: "xs = ys \<and> r = r'"
    proof (cases "xs = []")
      case True
      then show ?thesis using kk by (cases "ys = []") simp_all
    next
      case False
      then have ny: "ys \<noteq> []" using kk by (cases "ys = []") simp_all
      have "stringify_elems xs @ CHR '']'' # r = stringify_elems ys @ CHR '']'' # r'"
        using kk False ny by simp
      moreover have "wf_elems xs" using Cons.prems(2) by simp
      moreover have "z = v' \<and> q = q'"
        if "z \<in> set xs" "wf_json v'" "delimited q" "delimited q'"
          "JSON_stringify z @ q = JSON_stringify v' @ q'" for z v' q q'
        using Cons.prems(1)[of z v' q q'] that by simp
      ultimately show ?thesis using Cons.IH[of ys] wy(2) by blast
    qed
    then show ?thesis using xy Cons by simp
  qed
qed

lemma members_unique:
  assumes step: "\<And>k x v' r r'. (k, x) \<in> set ms \<Longrightarrow> wf_json v' \<Longrightarrow> delimited r \<Longrightarrow> delimited r' \<Longrightarrow>
             JSON_stringify x @ r = JSON_stringify v' @ r' \<Longrightarrow> x = v' \<and> r = r'"
    and "wf_members ms" and "wf_members ms'"
    and "stringify_members ms @ CHR ''}'' # r = stringify_members ms' @ CHR ''}'' # r'"
  shows "ms = ms' \<and> r = r'"
  using assms
proof (induction ms arbitrary: ms')
  case Nil
  show ?case
  proof (cases ms')
    case Nil
    then show ?thesis using Nil.prems by simp
  next
    case (Cons m ys)
    obtain k v where "m = (k, v)" by (cases m)
    then show ?thesis using Nil.prems(4) Cons by (simp add: stringify_members_cons quoteJSONString_def)
  qed
next
  case (Cons m xs)
  obtain k x where m: "m = (k, x)" by (cases m)
  have wx: "wf_json x" using Cons.prems(2) m by simp
  show ?case
  proof (cases ms')
    case Nil
    then show ?thesis using Cons.prems(4) m by (simp add: stringify_members_cons quoteJSONString_def)
  next
    case (Cons m' ys)
    obtain k' y where m': "m' = (k', y)" by (cases m')
    let ?k = "(if xs = [] then [] else CHR '','' # stringify_members xs) @ CHR ''}'' # r"
    let ?k' = "(if ys = [] then [] else CHR '','' # stringify_members ys) @ CHR ''}'' # r'"
    have wy: "wf_json y" "wf_members ys" using Cons.prems(3) Cons m' by simp_all
    have "quoteJSONString k @ (CHR '':'' # JSON_stringify x @ ?k)
        = quoteJSONString k' @ (CHR '':'' # JSON_stringify y @ ?k')"
      using Cons.prems(4) Cons m m' by (simp add: stringify_members_cons)
    then have kk': "k = k'" and eq: "JSON_stringify x @ ?k = JSON_stringify y @ ?k'"
      using quoteJSONString_unique by blast+
    have dk: "delimited ?k" "delimited ?k'" by (simp_all add: delimited_def)
    have xy: "x = y" and kk: "?k = ?k'"
      using Cons.prems(1)[of k x y ?k ?k'] wy(1) dk eq m by simp_all
    have rest: "xs = ys \<and> r = r'"
    proof (cases "xs = []")
      case True
      then show ?thesis using kk by (cases "ys = []") simp_all
    next
      case False
      then have ny: "ys \<noteq> []" using kk by (cases "ys = []") simp_all
      have "stringify_members xs @ CHR ''}'' # r = stringify_members ys @ CHR ''}'' # r'"
        using kk False ny by simp
      moreover have "wf_members xs" using Cons.prems(2) m by simp
      moreover have "z = v' \<and> q = q'"
        if "(j, z) \<in> set xs" "wf_json v'" "delimited q" "delimited q'"
          "JSON_stringify z @ q = JSON_stringify v' @ q'" for j z v' q q'
        using Cons.prems(1)[of j z v' q q'] that by simp
      ultimately show ?thesis using Cons.IH[of ys] wy(2) by blast
    qed
    then show ?thesis using xy kk' Cons m m' by simp
  qed
qed

lemma stringify_unique:
  assumes "wf_json v" "wf_json v'" "delimited r" "delimited r'"
    and "JSON_stringify v @ r = JSON_stringify v' @ r'"
  shows "v = v' \<and> r = r'"
  using assms
proof (induction v arbitrary: v' r r')
  case JNull
  obtain c t where h: "JSON_stringify v' = c # t"
    "c = (case v' of JNull \<Rightarrow> CHR ''n'' | JBool b \<Rightarrow> (if b then CHR ''t'' else CHR ''f'')
                   | JNum s \<Rightarrow> hd s | JStr s \<Rightarrow> CHR 0x22 | JArr xs \<Rightarrow> CHR ''[''
                   | JObj kvs \<Rightarrow> CHR ''{'')"
    using stringify_head[OF JNull.prems(2)] by blast
  show ?case
  proof (cases v')
    case (JNum s)
    then have "wf_num s" using JNull.prems(2) by simp
    then show ?thesis using JNull.prems(5) JNum by (cases s) (auto simp: wf_num_def)
  qed (use JNull.prems(5) in \<open>simp_all add: quoteJSONString_def split: if_splits\<close>)
next
  case (JBool b)
  show ?case
  proof (cases v')
    case (JNum s)
    then have "wf_num s" using JBool.prems(2) by simp
    then show ?thesis using JBool.prems(5) JNum by (cases s) (auto simp: wf_num_def split: if_splits)
  qed (use JBool.prems(5) in \<open>auto simp add: quoteJSONString_def split: if_splits\<close>)
next
  case (JNum s)
  have ws: "wf_num s" using JNum.prems(1) by simp
  show ?case
  proof (cases v')
    case (JNum s')
    then have "wf_num s'" using JNum.prems(2) by simp
    then show ?thesis
      using number_unique[of s s' r r'] ws JNum.prems(3,4,5) JNum by (simp add: wf_num_def)
  qed (use JNum.prems(5) ws in \<open>(cases s; auto simp add: wf_num_def quoteJSONString_def split: if_splits)+\<close>)
next
  case (JStr s)
  show ?case
  proof (cases v')
    case (JNum s')
    then have "wf_num s'" using JStr.prems(2) by simp
    then show ?thesis using JStr.prems(5) JNum
      by (cases s') (auto simp: wf_num_def quoteJSONString_def)
  next
    case (JStr s')
    then show ?thesis using JStr.prems(5) quoteJSONString_unique[of s r s' r'] by simp
  qed (use JStr.prems(5) in \<open>auto simp add: quoteJSONString_def split: if_splits\<close>)
next
  case (JArr xs)
  show ?case
  proof (cases v')
    case (JNum s')
    then have "wf_num s'" using JArr.prems(2) by simp
    then show ?thesis using JArr.prems(5) JNum by (cases s') (auto simp: wf_num_def)
  next
    case (JArr xs')
    have "stringify_elems xs @ CHR '']'' # r = stringify_elems xs' @ CHR '']'' # r'"
      using JArr.prems(5) \<open>v' = JArr xs'\<close> by simp
    moreover have "wf_elems xs" "wf_elems xs'" using JArr.prems(1,2) \<open>v' = JArr xs'\<close> by simp_all
    moreover have "\<And>x v' r r'. x \<in> set xs \<Longrightarrow> wf_json v' \<Longrightarrow> delimited r \<Longrightarrow> delimited r' \<Longrightarrow>
             JSON_stringify x @ r = JSON_stringify v' @ r' \<Longrightarrow> x = v' \<and> r = r'"
      using JArr.IH \<open>wf_elems xs\<close> by (simp add: wf_elems_iff)
    ultimately show ?thesis using elems_unique[of xs xs' r r'] \<open>v' = JArr xs'\<close> by blast
  qed (use JArr.prems(5) in \<open>auto simp add: quoteJSONString_def split: if_splits\<close>)
next
  case (JObj ms)
  show ?case
  proof (cases v')
    case (JNum s')
    then have "wf_num s'" using JObj.prems(2) by simp
    then show ?thesis using JObj.prems(5) JNum by (cases s') (auto simp: wf_num_def)
  next
    case (JObj ms')
    have "stringify_members ms @ CHR ''}'' # r = stringify_members ms' @ CHR ''}'' # r'"
      using JObj.prems(5) \<open>v' = JObj ms'\<close> by simp
    moreover have w: "wf_members ms" "wf_members ms'" using JObj.prems(1,2) \<open>v' = JObj ms'\<close> by simp_all
    moreover have "\<And>k x v' r r'. (k, x) \<in> set ms \<Longrightarrow> wf_json v' \<Longrightarrow> delimited r \<Longrightarrow> delimited r' \<Longrightarrow>
             JSON_stringify x @ r = JSON_stringify v' @ r' \<Longrightarrow> x = v' \<and> r = r'"
    proof -
      fix k x v' r r'
      assume a: "(k, x) \<in> set ms" "wf_json v'" "delimited r" "delimited r'"
        "JSON_stringify x @ r = JSON_stringify v' @ r'"
      have "wf_json x" using w(1) a(1) by (auto simp: wf_members_iff)
      moreover have "x \<in> Basic_BNFs.snds (k, x)" by simp
      ultimately show "x = v' \<and> r = r'" using JObj.IH[OF a(1)] a by blast
    qed
    ultimately show ?thesis using members_unique[of ms ms' r r'] \<open>v' = JObj ms'\<close> by blast
  qed (use JObj.prems(5) in \<open>auto simp add: quoteJSONString_def split: if_splits\<close>)
qed

lemma JSON_stringify_inj:
  assumes "wf_json a" "wf_json b" "JSON_stringify a = JSON_stringify b"
  shows "a = b"
  using stringify_unique[of a b "'',''" "'',''"] assms by (simp add: delimited_def)

lemma stringify_not_undefined:
  assumes "wf_json v"
  shows "JSON_stringify v \<noteq> ''undefined''"
proof (cases v)
  case (JNum s)
  then have "wf_num s" using assms by simp
  then show ?thesis using JNum by (cases s) (auto simp: wf_num_def)
qed (simp_all add: quoteJSONString_def)

lemma params_text_inj:
  assumes "wf_params r1" "wf_params r2"
    and "(case stringify_opt (body_params r1) of None \<Rightarrow> ''undefined'' | Some s \<Rightarrow> s)
       = (case stringify_opt (body_params r2) of None \<Rightarrow> ''undefined'' | Some s \<Rightarrow> s)"
  shows "body_params r1 = body_params r2"
proof (cases "body_params r1")
  case None
  show ?thesis
  proof (cases "body_params r2")
    case None
    then show ?thesis using \<open>body_params r1 = None\<close> by simp
  next
    case (Some b)
    then have "wf_json b" using assms(2) by (simp add: wf_params_def)
    then show ?thesis using assms(3) None Some stringify_not_undefined[of b]
      by (simp add: stringify_opt_def)
  qed
next
  case (Some a)
  then have wa: "wf_json a" using assms(1) by (simp add: wf_params_def)
  show ?thesis
  proof (cases "body_params r2")
    case None
    then show ?thesis using assms(3) Some stringify_not_undefined[OF wa]
      by (simp add: stringify_opt_def)
  next
    case (Some b)
    then have "wf_json b" using assms(2) by (simp add: wf_params_def)
    then show ?thesis using assms(3) Some \<open>body_params r1 = Some a\<close> JSON_stringify_inj[OF wa]
      by (simp add: stringify_opt_def)
  qed
qed

subsection \<open>Keys of cacheable requests\<close>

lemma cacheable_method:
  assumes "cacheable req"
  shows "body_method req \<in> {Some (JStr ''eth_chainId''), Some (JStr ''eth_blockNumber''),
                              Some (JStr ''net_version''), Some (JStr ''eth_call'')}"
  using assms by (auto simp: cacheable_def cacheWritePredicate_def split: if_splits)

lemma method_prefix:
  assumes "m1 \<in> {''eth_chainId'', ''eth_blockNumber'', ''net_version'', ''eth_call''}"
    and "m2 \<in> {''eth_chainId'', ''eth_blockNumber'', ''net_version'', ''eth_call''}"
    and "m1 @ s1 = m2 @ s2"
  shows "m1 = m2 \<and> s1 = s2"
  using assms by auto

section \<open>The upstream call: failure and retries\<close>

text \<open>
  C1. When every attempt fails, the caller is to get the last failure of the upstream
  as the thrown error. The function never throws it. When no failure makes the
  \<^verbatim>\<open>catch\<close> block itself raise an exception (as for failures of the connection, which
  have no response), the source computes the last failure's text into \<open>forwardedErr\<close> but
  throws \<^verbatim>\<open>Error(forwardErr)\<close>: the thrown error is the ReferenceError for the unbound
  name. When the first failure has a response that \<^verbatim>\<open>JSON.stringify\<close> cannot serialise,
  the function ends after that one attempt with the TypeError. Whatever the failures
  \<open>errs\<close> are, the result is one of these two errors, and never an error made from a
  failure of the upstream.
\<close>

theorem exhausted_upstream_error:
  "((\<forall>i\<le>10. \<not> catch_throws (errs i)) \<longrightarrow>
      snd (upstreamHttpRequest (\<lambda>i. Inl (errs i)) 0 10 2000)
        = Inl (ReferenceError ''forwardErr is not defined''))
   \<and> (catch_throws (errs 0) \<longrightarrow>
      upstreamHttpRequest (\<lambda>i. Inl (errs i)) 0 10 2000
        = ([Post 0], Inl (TypeError ''Converting circular structure to JSON'')))
   \<and> (snd (upstreamHttpRequest (\<lambda>i. Inl (errs i)) 0 10 2000)
        = Inl (ReferenceError ''forwardErr is not defined'')
      \<or> snd (upstreamHttpRequest (\<lambda>i. Inl (errs i)) 0 10 2000)
        = Inl (TypeError ''Converting circular structure to JSON''))
   \<and> (\<forall>f. snd (upstreamHttpRequest (\<lambda>i. Inl (errs i)) 0 10 2000) \<noteq> Inl (PlainError f))"
proof -
  have a: "(\<forall>i\<le>10. \<not> catch_throws (errs i)) \<longrightarrow>
      snd (upstreamHttpRequest (\<lambda>i. Inl (errs i)) 0 10 2000)
        = Inl (ReferenceError ''forwardErr is not defined'')"
    using upstream_trace_failing[of 10 errs 0 2000] by simp
  have b: "catch_throws (errs 0) \<longrightarrow>
      upstreamHttpRequest (\<lambda>i. Inl (errs i)) 0 10 2000
        = ([Post 0], Inl (TypeError ''Converting circular structure to JSON''))"
    using upstream_first_throw[of errs 0 10 2000] by simp
  have c: "snd (upstreamHttpRequest (\<lambda>i. Inl (errs i)) 0 10 2000)
        = Inl (ReferenceError ''forwardErr is not defined'')
      \<or> snd (upstreamHttpRequest (\<lambda>i. Inl (errs i)) 0 10 2000)
        = Inl (TypeError ''Converting circular structure to JSON'')"
    by (rule upstream_failing_result)
  have d: "\<forall>f. snd (upstreamHttpRequest (\<lambda>i. Inl (errs i)) 0 10 2000) \<noteq> Inl (PlainError f)"
    using c by auto
  show ?thesis using a b c d by blast
qed

theorem exhausted_upstream_error_witness:
  "\<not> catch_throws \<lparr>err_response = None, err_request = Some None\<rparr>
   \<and> snd (upstreamHttpRequest
        (\<lambda>i. Inl \<lparr>err_response = None, err_request = Some None\<rparr>) 0 10 2000)
       = Inl (ReferenceError ''forwardErr is not defined'')
   \<and> catch_throws \<lparr>err_response = Some Circular, err_request = Some None\<rparr>
   \<and> upstreamHttpRequest
        (\<lambda>i. Inl \<lparr>err_response = Some Circular, err_request = Some None\<rparr>) 0 10 2000
       = ([Post 0], Inl (TypeError ''Converting circular structure to JSON''))"
  using exhausted_upstream_error [of "\<lambda>i. \<lparr>err_response = None, err_request = Some None\<rparr>"]
    exhausted_upstream_error [of "\<lambda>i. \<lparr>err_response = Some Circular, err_request = Some None\<rparr>"]
  by (simp add: catch_throws_def forwardedErr_def JSON_stringify_value_def)

text \<open>
  C2, as stated: at most 10 attempts in total. Against an upstream whose connection
  fails every time (no response), the function with its default of 10 retries makes the
  first attempt and 10 retries: 11 attempts.
\<close>

theorem ten_attempts_counterexample:
  "attempts (fst (upstreamHttpRequest
      (\<lambda>i. Inl \<lparr>err_response = None, err_request = Some None\<rparr>) 0 10 2000)) = 11"
proof -
  have "\<not> catch_throws \<lparr>err_response = None, err_request = Some None\<rparr>"
    by (simp add: catch_throws_def forwardedErr_def)
  then show ?thesis
    using upstream_trace_failing[of 10 "\<lambda>i. \<lparr>err_response = None, err_request = Some None\<rparr>" 0 2000]
    by (simp add: attempts_def upt_conv_Cons del: upt_Suc)
qed

text \<open>
  C2, amended. For an upstream that fails on every attempt with failures on which the
  \<^verbatim>\<open>catch\<close> block raises no exception of its own (failures without a response, as
  failures of the connection are), \<open>upstreamHttpRequest\<close> makes 11 attempts in total (the
  first one and 10 retries), the \<open>k\<close>-th retry (\<open>1 \<le> k \<le> 10\<close>) is preceded by a wait of
  \<open>2000 \<cdot> 2^(k-1)\<close> ms, and the call fails only after the 11th attempt. For every
  upstream, no more than 11 attempts are made, and the \<open>k\<close>-th retry, when it is made, is
  preceded by that wait.
\<close>

theorem retry_schedule:
  "((\<forall>i\<le>10. \<not> catch_throws (errs i)) \<longrightarrow>
      fst (upstreamHttpRequest (\<lambda>i. Inl (errs i)) 0 10 2000) =
        [Post 0, Sleep 2000, Post 1, Sleep 4000, Post 2, Sleep 8000, Post 3, Sleep 16000,
         Post 4, Sleep 32000, Post 5, Sleep 64000, Post 6, Sleep 128000, Post 7, Sleep 256000,
         Post 8, Sleep 512000, Post 9, Sleep 1024000, Post 10]
      \<and> attempts (fst (upstreamHttpRequest (\<lambda>i. Inl (errs i)) 0 10 2000)) = 11
      \<and> sleeps (fst (upstreamHttpRequest (\<lambda>i. Inl (errs i)) 0 10 2000)) =
          map (\<lambda>k. 2000 * 2 ^ (k - 1)) [1..<11]
      \<and> snd (upstreamHttpRequest (\<lambda>i. Inl (errs i)) 0 10 2000)
          = Inl (ReferenceError ''forwardErr is not defined''))
   \<and> attempts (fst (upstreamHttpRequest post 0 10 2000)) \<le> 11
   \<and> length (sleeps (fst (upstreamHttpRequest post 0 10 2000)))
       = attempts (fst (upstreamHttpRequest post 0 10 2000)) - 1
   \<and> (\<forall>k. 1 \<le> k \<and> k < attempts (fst (upstreamHttpRequest post 0 10 2000)) \<longrightarrow>
         sleeps (fst (upstreamHttpRequest post 0 10 2000)) ! (k - 1) = 2000 * 2 ^ (k - 1))"
proof -
  have a: "fst (upstreamHttpRequest (\<lambda>i. Inl (errs i)) 0 10 2000) =
        [Post 0, Sleep 2000, Post 1, Sleep 4000, Post 2, Sleep 8000, Post 3, Sleep 16000,
         Post 4, Sleep 32000, Post 5, Sleep 64000, Post 6, Sleep 128000, Post 7, Sleep 256000,
         Post 8, Sleep 512000, Post 9, Sleep 1024000, Post 10]
      \<and> attempts (fst (upstreamHttpRequest (\<lambda>i. Inl (errs i)) 0 10 2000)) = 11
      \<and> sleeps (fst (upstreamHttpRequest (\<lambda>i. Inl (errs i)) 0 10 2000)) =
          map (\<lambda>k. 2000 * 2 ^ (k - 1)) [1..<11]
      \<and> snd (upstreamHttpRequest (\<lambda>i. Inl (errs i)) 0 10 2000)
          = Inl (ReferenceError ''forwardErr is not defined'')"
    if "\<forall>i\<le>10. \<not> catch_throws (errs i)"
    using upstream_trace_failing[of 10 errs 0 2000] that
    by (simp add: attempts_def sleeps_def upt_conv_Cons del: upt_Suc)
  have b: "attempts (fst (upstreamHttpRequest post 0 10 2000)) \<le> 11"
    using attempts_bound[of post 0 10 2000] by simp
  have c: "length (sleeps (fst (upstreamHttpRequest post 0 10 2000)))
       = attempts (fst (upstreamHttpRequest post 0 10 2000)) - 1"
    by (rule waits_count)
  have d: "sleeps (fst (upstreamHttpRequest post 0 10 2000)) ! (k - 1) = 2000 * 2 ^ (k - 1)"
    if "1 \<le> k" "k < attempts (fst (upstreamHttpRequest post 0 10 2000))" for k
  proof -
    have "k - 1 < length (sleeps (fst (upstreamHttpRequest post 0 10 2000)))"
      using that c by simp
    then show ?thesis by (rule waits_double)
  qed
  show ?thesis using a b c d by blast
qed

theorem retry_schedule_witness:
  "\<not> catch_throws \<lparr>err_response = None, err_request = Some None\<rparr>
   \<and> fst (upstreamHttpRequest
        (\<lambda>i. Inl \<lparr>err_response = None, err_request = Some None\<rparr>) 0 10 2000) =
        [Post 0, Sleep 2000, Post 1, Sleep 4000, Post 2, Sleep 8000, Post 3, Sleep 16000,
         Post 4, Sleep 32000, Post 5, Sleep 64000, Post 6, Sleep 128000, Post 7, Sleep 256000,
         Post 8, Sleep 512000, Post 9, Sleep 1024000, Post 10]
   \<and> (1::nat) \<le> 3
   \<and> 3 < attempts (fst (upstreamHttpRequest
        (\<lambda>i. Inl \<lparr>err_response = None, err_request = Some None\<rparr>) 0 10 2000))
   \<and> sleeps (fst (upstreamHttpRequest
        (\<lambda>i. Inl \<lparr>err_response = None, err_request = Some None\<rparr>) 0 10 2000)) ! (3 - 1)
       = 8000"
  using retry_schedule [of "\<lambda>i. \<lparr>err_response = None, err_request = Some None\<rparr>"
      "\<lambda>i. Inl \<lparr>err_response = None, err_request = Some None\<rparr>"]
  by (simp add: catch_throws_def forwardedErr_def attempts_def sleeps_def)

section \<open>Duplicate detection\<close>

text \<open>
  C7. A request is delayed if and only if the duplicate detector holds a record for its
  key and \<open>now - lastSeenAt < 1000\<close>; the delay is then \<open>500 + \<lfloor>random \<cdot> 1000\<rfloor>\<close>, which
  lies in \<open>[500, 1500)\<close>, for \<open>random\<close> in \<open>[0, 1)\<close> as \<^verbatim>\<open>Math.random()\<close> returns it.
  Otherwise the request does not wait.
\<close>

theorem duplicate_delay_rule:
  assumes "0 \<le> random" and "random < 1"
  shows "fst (checkStretch st req now random) =
           (if \<exists>lastSeenAt. duplicateDetector st (getCacheKey req) = Some lastSeenAt
                              \<and> now - lastSeenAt < 1000
            then Some (500 + \<lfloor>random * 1000\<rfloor>) else None)
         \<and> 500 \<le> 500 + \<lfloor>random * 1000\<rfloor> \<and> 500 + \<lfloor>random * 1000\<rfloor> < 1500"
proof -
  have lo: "0 \<le> \<lfloor>random * 1000\<rfloor>" using assms by simp
  have "random * 1000 < 1000" using assms by simp
  then have hi: "\<lfloor>random * 1000\<rfloor> < 1000" by (simp add: floor_less_iff)
  show ?thesis using lo hi
    by (auto simp: checkStretch_def duplicateDelay_def DUPLICATE_DELAY_TRIGGER_THRESHOLD_MS_def
        DUPLICATE_MIN_DELAY_MS_def DUPLICATE_RANDOM_MAX_EXTRA_DELAY_MS_def split: option.splits)
qed

theorem duplicate_delay_rule_witness:
  "(0::real) \<le> 1 / 2 \<and> (1 / 2 :: real) < 1 \<and>
   fst (checkStretch
          \<lparr>cache = Map.empty, db = None, duplicateDetector = [''eth_blockNumber[]'' \<mapsto> 0]\<rparr>
          \<lparr>body_id = Some (JNum ''1''), body_method = Some (JStr ''eth_blockNumber''),
           body_params = Some (JArr [])\<rparr>
          999 (1 / 2)) = Some 1000"
  using duplicate_delay_rule [of "1 / 2"
      "\<lparr>cache = Map.empty, db = None, duplicateDetector = [''eth_blockNumber[]'' \<mapsto> 0]\<rparr>"
      "\<lparr>body_id = Some (JNum ''1''), body_method = Some (JStr ''eth_blockNumber''),
           body_params = Some (JArr [])\<rparr>" 999]
  by (simp add: getCacheKey_def interpolate_def stringify_opt_def)

text \<open>
  C4, as stated: the record for the request's key is set to the current time before the
  duplicate delay elapses. A request at time 100 for a key last seen at time 0 is delayed
  by 500 ms, and the state it leaves while it waits still holds 0 for that key.
\<close>

theorem detector_before_delay_counterexample:
  "fst (checkStretch
          \<lparr>cache = Map.empty, db = None, duplicateDetector = [''eth_blockNumber[]'' \<mapsto> 0]\<rparr>
          \<lparr>body_id = Some (JNum ''1''), body_method = Some (JStr ''eth_blockNumber''),
           body_params = Some (JArr [])\<rparr> 100 0) = Some 500
   \<and> duplicateDetector (snd (checkStretch
          \<lparr>cache = Map.empty, db = None, duplicateDetector = [''eth_blockNumber[]'' \<mapsto> 0]\<rparr>
          \<lparr>body_id = Some (JNum ''1''), body_method = Some (JStr ''eth_blockNumber''),
           body_params = Some (JArr [])\<rparr> 100 0))
        (getCacheKey \<lparr>body_id = Some (JNum ''1''), body_method = Some (JStr ''eth_blockNumber''),
           body_params = Some (JArr [])\<rparr>) = Some 0"
  by (simp add: checkStretch_def duplicateDelay_def DUPLICATE_DELAY_TRIGGER_THRESHOLD_MS_def
        DUPLICATE_MIN_DELAY_MS_def DUPLICATE_RANDOM_MAX_EXTRA_DELAY_MS_def
        getCacheKey_def interpolate_def stringify_opt_def)

text \<open>
  C4, amended. The handler writes nothing to the duplicate detector before it waits: the
  stretch that ends in the delay leaves the state as it was, so requests arriving during
  the delay see the previous timestamp (if any). The record for the request's key is set
  in the stretch after the wait, to the time read then, by every request, delayed or
  not; a request that does not wait sets it right after the check.
\<close>

theorem detector_is_set_after_the_delay:
  "snd (checkStretch st req now random) = st
   \<and> duplicateDetector (snd (lookupStretch parse m st' req tRecord tLookup)) (getCacheKey req)
       = Some tRecord
   \<and> duplicateDetector
        (after (handlePost parse m post st req now random tRecord tLookup tWrite)) (getCacheKey req)
       = Some tRecord"
  by (simp add: checkStretch_def lookupStretch_state lookup_keeps_detector handlePost_detector)

section \<open>Cache lookups\<close>

text \<open>
  C5, as stated: where the stored value for a key is \<^verbatim>\<open>null\<close>, \<open>getResponseFromCache\<close>
  returns no cache hit. The claim is about both versions of the function. The one in
  \<^verbatim>\<open>app.js\<close> returns the envelope for any entry within the age limit; an envelope with
  \<^verbatim>\<open>result: null\<close> is an object, so the handler sends it as a cache hit.
\<close>

theorem unguarded_null_counterexample:
  "cache \<lparr>cache = [''eth_getTransactionReceipt[]'' \<mapsto>
                     \<lparr>val = Some JNull, ts = 0, readCnt = 0, writeCnt = 1\<rparr>],
          db = None, duplicateDetector = Map.empty\<rparr> ''eth_getTransactionReceipt[]''
     = Some \<lparr>val = Some JNull, ts = 0, readCnt = 0, writeCnt = 1\<rparr>
   \<and> fst (getResponseFromCache_app
            \<lparr>cache = [''eth_getTransactionReceipt[]'' \<mapsto>
                       \<lparr>val = Some JNull, ts = 0, readCnt = 0, writeCnt = 1\<rparr>],
             db = None, duplicateDetector = Map.empty\<rparr>
            ''eth_getTransactionReceipt[]'' (Finite 10000) (Some (JNum ''7'')) 5)
     = Some \<lparr>jsonrpc = ''2.0'', id = Some (JNum ''7''), result = Some JNull\<rparr>"
  by (simp add: getResponseFromCache_app_def within_age_def)

text \<open>
  C5, amended. In the version with the durable store, where the stored value for a key
  is \<^verbatim>\<open>null\<close>, \<open>getResponseFromCache\<close> returns no response for that key, whatever the age
  limit and the time, so a request with that key is not answered from the cache: the
  handler calls the upstream. The version in \<^verbatim>\<open>app.js\<close> has no such guard: it returns
  the stored \<^verbatim>\<open>null\<close> as the result whenever the entry is within the age limit.
\<close>

theorem guarded_null_is_never_a_hit:
  assumes "cache st key = Some e" and "val e = Some JNull"
  shows "fst (getResponseFromCache parse st key maxAgeMs reqId now) = None
       \<and> (\<forall>req. getCacheKey req = key \<longrightarrow>
            (\<forall>c. sent (handlePost parse m post st req tCheck random tRecord tLookup tWrite)
                    \<noteq> CachedReply c)
            \<and> (\<exists>tr. upstream (handlePost parse m post st req tCheck random tRecord tLookup tWrite)
                    = Post 0 # tr))
       \<and> fst (getResponseFromCache_app st key maxAgeMs reqId now) =
           (if (case maxAgeMs of Infinity \<Rightarrow> True | Finite a \<Rightarrow> now - ts e \<le> a)
            then Some \<lparr>jsonrpc = ''2.0'', id = reqId, result = Some JNull\<rparr> else None)"
proof -
  have miss: "fst (getResponseFromCache parse st key a b c) = None" for a b c
    using assms by (simp add: lookup_served)
  have h: "\<forall>req. getCacheKey req = key \<longrightarrow>
            (\<forall>c. sent (handlePost parse m post st req tCheck random tRecord tLookup tWrite)
                    \<noteq> CachedReply c)
            \<and> (\<exists>tr. upstream (handlePost parse m post st req tCheck random tRecord tLookup tWrite)
                    = Post 0 # tr)"
  proof (intro allI impI)
    fix req
    assume "getCacheKey req = key"
    then have l: "fst (lookupStretch parse m st req tRecord tLookup) = None"
      using miss by (simp add: lookupStretch_reply)
    show "(\<forall>c. sent (handlePost parse m post st req tCheck random tRecord tLookup tWrite)
                    \<noteq> CachedReply c)
            \<and> (\<exists>tr. upstream (handlePost parse m post st req tCheck random tRecord tLookup tWrite)
                    = Post 0 # tr)"
      using handlePost_miss[OF l, of post tCheck random tWrite]
        handlePost_miss_calls_upstream[OF l, of post tCheck random tWrite] by simp
  qed
  have app: "fst (getResponseFromCache_app st key maxAgeMs reqId now) =
           (if (case maxAgeMs of Infinity \<Rightarrow> True | Finite a \<Rightarrow> now - ts e \<le> a)
            then Some \<lparr>jsonrpc = ''2.0'', id = reqId, result = Some JNull\<rparr> else None)"
    using assms by (simp add: getResponseFromCache_app_def within_age_def)
  show ?thesis using miss h app by blast
qed

theorem guarded_null_is_never_a_hit_witness:
  "cache \<lparr>cache = [''eth_blockNumber[]'' \<mapsto> \<lparr>val = Some JNull, ts = 0, readCnt = 0, writeCnt = 1\<rparr>],
          db = None, duplicateDetector = Map.empty\<rparr> ''eth_blockNumber[]''
     = Some \<lparr>val = Some JNull, ts = 0, readCnt = 0, writeCnt = 1\<rparr>
   \<and> val \<lparr>val = Some JNull, ts = 0, readCnt = 0, writeCnt = 1\<rparr> = Some JNull
   \<and> getCacheKey \<lparr>body_id = Some (JNum ''7''), body_method = Some (JStr ''eth_blockNumber''),
                   body_params = Some (JArr [])\<rparr> = ''eth_blockNumber[]''
   \<and> fst (getResponseFromCache (\<lambda>text. Inr JNull)
            \<lparr>cache = [''eth_blockNumber[]'' \<mapsto> \<lparr>val = Some JNull, ts = 0, readCnt = 0, writeCnt = 1\<rparr>],
             db = None, duplicateDetector = Map.empty\<rparr>
            ''eth_blockNumber[]'' Infinity (Some (JNum ''7'')) 5) = None
   \<and> (\<forall>c. sent (handlePost (\<lambda>text. Inr JNull) 10 (\<lambda>i. Inr (JObj [(''result'', JStr ''0x10'')]))
            \<lparr>cache = [''eth_blockNumber[]'' \<mapsto> \<lparr>val = Some JNull, ts = 0, readCnt = 0, writeCnt = 1\<rparr>],
             db = None, duplicateDetector = Map.empty\<rparr>
            \<lparr>body_id = Some (JNum ''7''), body_method = Some (JStr ''eth_blockNumber''),
             body_params = Some (JArr [])\<rparr> 5 0 5 5 5) \<noteq> CachedReply c)"
  using guarded_null_is_never_a_hit [where st =
      "\<lparr>cache = [''eth_blockNumber[]'' \<mapsto> \<lparr>val = Some JNull, ts = 0, readCnt = 0, writeCnt = 1\<rparr>],
        db = None, duplicateDetector = Map.empty\<rparr>"
      and key = "''eth_blockNumber[]''" and e = "\<lparr>val = Some JNull, ts = 0, readCnt = 0, writeCnt = 1\<rparr>"
      and parse = "\<lambda>text. Inr JNull" and maxAgeMs = Infinity and reqId = "Some (JNum ''7'')" and now = 5
      and m = 10 and post = "\<lambda>i. Inr (JObj [(''result'', JStr ''0x10'')])" and tCheck = 5 and random = 0
      and tRecord = 5 and tLookup = 5 and tWrite = 5]
  by (simp add: getCacheKey_def interpolate_def stringify_opt_def)

text \<open>
  C6, as stated: an entry is served if and only if it exists and
  \<open>now - writtenAt \<le> maxAgeMs\<close>. An entry that holds \<^verbatim>\<open>null\<close> exists and is within the
  age limit, and is not served.
\<close>

theorem fresh_null_entry_counterexample:
  "cache \<lparr>cache = [''eth_blockNumber[]'' \<mapsto>
                     \<lparr>val = Some JNull, ts = 0, readCnt = 0, writeCnt = 1\<rparr>],
          db = None, duplicateDetector = Map.empty\<rparr> ''eth_blockNumber[]''
     = Some \<lparr>val = Some JNull, ts = 0, readCnt = 0, writeCnt = 1\<rparr>
   \<and> (5::int) - ts \<lparr>val = Some JNull, ts = 0, readCnt = 0, writeCnt = 1\<rparr> \<le> 10000
   \<and> fst (getResponseFromCache (\<lambda>text. Inr JNull)
            \<lparr>cache = [''eth_blockNumber[]'' \<mapsto>
                       \<lparr>val = Some JNull, ts = 0, readCnt = 0, writeCnt = 1\<rparr>],
             db = None, duplicateDetector = Map.empty\<rparr>
            ''eth_blockNumber[]'' (Finite 10000) (Some (JNum ''7'')) 5) = None"
  by (simp add: lookup_served within_age_def)

text \<open>
  C6, amended. For every key, \<open>maxAgeMs\<close> (a number or \<^verbatim>\<open>Infinity\<close>) and time \<open>now\<close>,
  \<open>getResponseFromCache\<close> returns a response if and only if the in-memory map has an entry
  for the key, \<open>now - writtenAt \<le> maxAgeMs\<close>, and the stored value is neither
  \<^verbatim>\<open>undefined\<close> nor \<^verbatim>\<open>null\<close>. In particular, for a method whose lookup uses the
  configured age limit, with \<^verbatim>\<open>CACHE_MAX_AGE=1\<close> a lookup made 2 s (or more) after the
  write misses, and the handler calls the upstream.
\<close>

theorem served_iff_fresh_and_not_null:
  "(fst (getResponseFromCache parse st key maxAgeMs reqId now) \<noteq> None \<longleftrightarrow>
      (\<exists>e. cache st key = Some e
           \<and> (case maxAgeMs of Infinity \<Rightarrow> True | Finite m \<Rightarrow> now - ts e \<le> m)
           \<and> val e \<noteq> None \<and> val e \<noteq> Some JNull))
   \<and> (\<forall>e. body_method req \<notin> set [Some (JStr ''eth_chainId''), Some (JStr ''net_version''),
                                    Some (JStr ''eth_getTransactionReceipt'')]
          \<and> cache st (getCacheKey req) = Some e \<and> ts e + 2000 \<le> tLookup \<longrightarrow>
          fst (lookupStretch parse (CACHE_MAX_AGE (Some 1)) st req tRecord tLookup) = None
          \<and> (\<exists>tr. upstream (handlePost parse (CACHE_MAX_AGE (Some 1)) post st req
                              tCheck random tRecord tLookup tWrite) = Post 0 # tr))"
proof -
  have a: "fst (getResponseFromCache parse st key maxAgeMs reqId now) \<noteq> None \<longleftrightarrow>
      (\<exists>e. cache st key = Some e
           \<and> (case maxAgeMs of Infinity \<Rightarrow> True | Finite m \<Rightarrow> now - ts e \<le> m)
           \<and> val e \<noteq> None \<and> val e \<noteq> Some JNull)"
    by (auto simp add: lookup_served within_age_def split: option.splits)
  have b: "fst (lookupStretch parse (CACHE_MAX_AGE (Some 1)) st req tRecord tLookup) = None"
    if "body_method req \<notin> set [Some (JStr ''eth_chainId''), Some (JStr ''net_version''),
                                    Some (JStr ''eth_getTransactionReceipt'')]"
      and "cache st (getCacheKey req) = Some e" and "ts e + 2000 \<le> tLookup" for e
    using that
    by (simp add: lookupStretch_reply lookup_served cacheMaxAgeMs_def CACHE_MAX_AGE_def within_age_def)
  show ?thesis using a b handlePost_miss_calls_upstream by blast
qed

theorem served_iff_fresh_and_not_null_witness:
  "body_method \<lparr>body_id = Some (JNum ''2''), body_method = Some (JStr ''eth_blockNumber''),
                body_params = Some (JArr [])\<rparr>
     \<notin> set [Some (JStr ''eth_chainId''), Some (JStr ''net_version''),
            Some (JStr ''eth_getTransactionReceipt'')]
   \<and> cache \<lparr>cache = [''eth_blockNumber[]'' \<mapsto>
                       \<lparr>val = Some (JStr ''0x10''), ts = 0, readCnt = 0, writeCnt = 1\<rparr>],
            db = None, duplicateDetector = Map.empty\<rparr>
        (getCacheKey \<lparr>body_id = Some (JNum ''2''), body_method = Some (JStr ''eth_blockNumber''),
                      body_params = Some (JArr [])\<rparr>)
       = Some \<lparr>val = Some (JStr ''0x10''), ts = 0, readCnt = 0, writeCnt = 1\<rparr>
   \<and> ts \<lparr>val = Some (JStr ''0x10''), ts = 0, readCnt = 0, writeCnt = 1\<rparr> + 2000 \<le> 2000
   \<and> fst (lookupStretch (\<lambda>text. Inr JNull) (CACHE_MAX_AGE (Some 1))
            \<lparr>cache = [''eth_blockNumber[]'' \<mapsto>
                       \<lparr>val = Some (JStr ''0x10''), ts = 0, readCnt = 0, writeCnt = 1\<rparr>],
             db = None, duplicateDetector = Map.empty\<rparr>
            \<lparr>body_id = Some (JNum ''2''), body_method = Some (JStr ''eth_blockNumber''),
             body_params = Some (JArr [])\<rparr> 2000 2000) = None"
  using served_iff_fresh_and_not_null [where parse = "\<lambda>text. Inr JNull" and req =
      "\<lparr>body_id = Some (JNum ''2''), body_method = Some (JStr ''eth_blockNumber''),
        body_params = Some (JArr [])\<rparr>" and st =
      "\<lparr>cache = [''eth_blockNumber[]'' \<mapsto>
                       \<lparr>val = Some (JStr ''0x10''), ts = 0, readCnt = 0, writeCnt = 1\<rparr>],
        db = None, duplicateDetector = Map.empty\<rparr>" and tLookup = 2000 and tRecord = 2000]
  by (simp add: getCacheKey_def interpolate_def stringify_opt_def)

section \<open>Bookkeeping of cache entries\<close>

text \<open>
  C8, as stated: \<open>readCnt\<close> is incremented only when a cache hit is served. The lookup
  of an entry that holds \<^verbatim>\<open>null\<close> and is within the age limit returns no response, and
  increments \<open>readCnt\<close>.
\<close>

theorem read_count_counterexample:
  "fst (getResponseFromCache (\<lambda>text. Inr JNull)
          \<lparr>cache = [''eth_blockNumber[]'' \<mapsto>
                     \<lparr>val = Some JNull, ts = 0, readCnt = 0, writeCnt = 1\<rparr>],
           db = None, duplicateDetector = Map.empty\<rparr>
          ''eth_blockNumber[]'' Infinity (Some (JNum ''7'')) 5) = None
   \<and> cache (snd (getResponseFromCache (\<lambda>text. Inr JNull)
          \<lparr>cache = [''eth_blockNumber[]'' \<mapsto>
                     \<lparr>val = Some JNull, ts = 0, readCnt = 0, writeCnt = 1\<rparr>],
           db = None, duplicateDetector = Map.empty\<rparr>
          ''eth_blockNumber[]'' Infinity (Some (JNum ''7'')) 5)) ''eth_blockNumber[]''
     = Some \<lparr>val = Some JNull, ts = 0, readCnt = 1, writeCnt = 1\<rparr>"
  by (simp add: lookup_served lookup_state within_age_def)

text \<open>
  C8, amended. With the in-memory backing, a write replaces the entry of its key by one
  with the new value and time, the \<open>readCnt\<close> of the entry it replaces and its
  \<open>writeCnt\<close> plus one (0 and 1 for a new key), and leaves every other key alone. A lookup
  increments \<open>readCnt\<close> of the entry exactly when the entry is within the age limit, and
  changes nothing else; every served hit is such a lookup, and so is the lookup of a
  fresh entry that holds \<^verbatim>\<open>null\<close> or \<^verbatim>\<open>undefined\<close>, which is not served. With either
  backing, when the clock readings of the operations never decrease (and none is below a
  timestamp already stored), an entry found after some operations is still there after
  any further ones, with a \<open>ts\<close> that is not smaller.
\<close>

theorem cache_entry_bookkeeping:
  "(db st = None \<longrightarrow>
      cache (writeResponseToCache st key v now) =
        (cache st)(key \<mapsto>
           \<lparr>val = v, ts = now,
            readCnt = (case cache st key of Some e \<Rightarrow> readCnt e | None \<Rightarrow> 0),
            writeCnt = (case cache st key of Some e \<Rightarrow> writeCnt e + 1 | None \<Rightarrow> 1)\<rparr>))
   \<and> cache (snd (getResponseFromCache parse st key maxAgeMs reqId now)) =
        (case cache st key of
           Some e \<Rightarrow>
             if (case maxAgeMs of Infinity \<Rightarrow> True | Finite m \<Rightarrow> now - ts e \<le> m)
             then (cache st)(key \<mapsto> e\<lparr>readCnt := readCnt e + 1\<rparr>)
             else cache st
         | None \<Rightarrow> cache st)
   \<and> (fst (getResponseFromCache parse st key maxAgeMs reqId now) \<noteq> None \<longrightarrow>
        (\<exists>e. cache st key = Some e
             \<and> cache (snd (getResponseFromCache parse st key maxAgeMs reqId now)) key
                 = Some (e\<lparr>readCnt := readCnt e + 1\<rparr>)))
   \<and> ((\<forall>k e. cache st k = Some e \<longrightarrow> ts e \<le> t)
        \<and> sorted (t # map op_time (earlier @ later))
        \<and> cache (run_ops parse st earlier) key = Some entry \<longrightarrow>
        (\<exists>e2. cache (run_ops parse st (earlier @ later)) key = Some e2 \<and> ts entry \<le> ts e2))"
proof -
  have w: "db st = None \<longrightarrow>
      cache (writeResponseToCache st key v now) =
        (cache st)(key \<mapsto>
           \<lparr>val = v, ts = now,
            readCnt = (case cache st key of Some e \<Rightarrow> readCnt e | None \<Rightarrow> 0),
            writeCnt = (case cache st key of Some e \<Rightarrow> writeCnt e + 1 | None \<Rightarrow> 1)\<rparr>)"
    by (simp add: write_in_memory)
  have r: "cache (snd (getResponseFromCache parse st key maxAgeMs reqId now)) =
        (case cache st key of
           Some e \<Rightarrow>
             if (case maxAgeMs of Infinity \<Rightarrow> True | Finite m \<Rightarrow> now - ts e \<le> m)
             then (cache st)(key \<mapsto> e\<lparr>readCnt := readCnt e + 1\<rparr>)
             else cache st
         | None \<Rightarrow> cache st)"
    by (simp add: lookup_state within_age_def split: option.splits)
  have h: "fst (getResponseFromCache parse st key maxAgeMs reqId now) \<noteq> None \<longrightarrow>
        (\<exists>e. cache st key = Some e
             \<and> cache (snd (getResponseFromCache parse st key maxAgeMs reqId now)) key
                 = Some (e\<lparr>readCnt := readCnt e + 1\<rparr>))"
    by (auto simp add: lookup_served lookup_state split: option.splits if_splits)
  have m: "(\<forall>k e. cache st k = Some e \<longrightarrow> ts e \<le> t)
        \<and> sorted (t # map op_time (earlier @ later))
        \<and> cache (run_ops parse st earlier) key = Some entry \<longrightarrow>
        (\<exists>e2. cache (run_ops parse st (earlier @ later)) key = Some e2 \<and> ts entry \<le> ts e2)"
    using written_at_monotone[of st t earlier later parse key entry] by blast
  show ?thesis using w r h m by blast
qed

theorem cache_entry_bookkeeping_witness:
  "db \<lparr>cache = Map.empty, db = None, duplicateDetector = Map.empty\<rparr> = None
   \<and> cache \<lparr>cache = Map.empty, db = None, duplicateDetector = Map.empty\<rparr> = Map.empty
   \<and> sorted (0 # map op_time ([Put ''k'' (Some (JStr ''0x1'')) 10]
                               @ [Get ''k'' Infinity None 20, Put ''k'' (Some (JStr ''0x2'')) 30]))
   \<and> cache (run_ops (\<lambda>text. Inr JNull)
              \<lparr>cache = Map.empty, db = None, duplicateDetector = Map.empty\<rparr>
              [Put ''k'' (Some (JStr ''0x1'')) 10]) ''k''
       = Some \<lparr>val = Some (JStr ''0x1''), ts = 10, readCnt = 0, writeCnt = 1\<rparr>
   \<and> cache (run_ops (\<lambda>text. Inr JNull)
              \<lparr>cache = Map.empty, db = None, duplicateDetector = Map.empty\<rparr>
              ([Put ''k'' (Some (JStr ''0x1'')) 10]
               @ [Get ''k'' Infinity None 20, Put ''k'' (Some (JStr ''0x2'')) 30])) ''k''
       = Some \<lparr>val = Some (JStr ''0x2''), ts = 30, readCnt = 1, writeCnt = 2\<rparr>
   \<and> fst (getResponseFromCache (\<lambda>text. Inr JNull)
            \<lparr>cache = [''k'' \<mapsto> \<lparr>val = Some (JStr ''0x1''), ts = 10, readCnt = 0, writeCnt = 1\<rparr>],
             db = None, duplicateDetector = Map.empty\<rparr> ''k'' Infinity None 20) \<noteq> None"
  using cache_entry_bookkeeping [where st = "\<lparr>cache = Map.empty, db = None, duplicateDetector = Map.empty\<rparr>"
      and key = "''k''" and t = 0 and parse = "\<lambda>text. Inr JNull"
      and earlier = "[Put ''k'' (Some (JStr ''0x1'')) 10]"
      and later = "[Get ''k'' Infinity None 20, Put ''k'' (Some (JStr ''0x2'')) 30]"
      and entry = "\<lparr>val = Some (JStr ''0x1''), ts = 10, readCnt = 0, writeCnt = 1\<rparr>"]
  by (simp add: run_ops_def write_in_memory lookup_state lookup_served within_age_def)

section \<open>The durable store\<close>

text \<open>
  C10. When the durable store is active, \<open>writeResponseToCache\<close> leaves the in-memory map
  as it is and writes the row to the store; for a key absent from the in-memory map,
  \<open>getResponseFromCache\<close> returns nothing and changes nothing, whatever the store holds:
  where the store has a row for the key, reading it ends in the TypeError of the
  freshness test, which is caught.
  Hence, from the empty in-memory map the process starts with, handling a request leaves
  the map empty and the store active, and no request is answered from the cache.
\<close>

theorem durable_store_is_never_served:
  assumes "db st = Some d"
  shows "cache (writeResponseToCache st key v now) = cache st
       \<and> db (writeResponseToCache st key v now) = Some (db_run d key (stringify_opt v) now)
       \<and> (cache st key' = None \<longrightarrow>
            getResponseFromCache parse st key' maxAgeMs reqId now' = (None, st))
       \<and> (cache st key' = None \<and> getFromDb d key' = Inr (Some row) \<longrightarrow>
            readFromDb parse st d key' maxAgeMs now' = Inl (TypeError ''ts''))
       \<and> (cache st = Map.empty \<longrightarrow>
            cache (after (handlePost parse m post st req tCheck random tRecord tLookup tWrite))
              = Map.empty
            \<and> db (after (handlePost parse m post st req tCheck random tRecord tLookup tWrite))
              \<noteq> None
            \<and> (\<forall>c. sent (handlePost parse m post st req tCheck random tRecord tLookup tWrite)
                  \<noteq> CachedReply c))"
proof -
  have w: "cache (writeResponseToCache st key v now) = cache st
       \<and> db (writeResponseToCache st key v now) = Some (db_run d key (stringify_opt v) now)"
    using assms by (simp add: write_durable)
  have r: "cache st key' = None \<longrightarrow>
            getResponseFromCache parse st key' maxAgeMs reqId now' = (None, st)"
    by (simp add: lookup_absent)
  have t: "cache st key' = None \<and> getFromDb d key' = Inr (Some row) \<longrightarrow>
            readFromDb parse st d key' maxAgeMs now' = Inl (TypeError ''ts'')"
    by (simp add: readFromDb_def)
  have h: "cache (after (handlePost parse m post st req tCheck random tRecord tLookup tWrite))
              = Map.empty
            \<and> db (after (handlePost parse m post st req tCheck random tRecord tLookup tWrite))
              \<noteq> None
            \<and> (\<forall>c. sent (handlePost parse m post st req tCheck random tRecord tLookup tWrite)
                  \<noteq> CachedReply c)" if e: "cache st = Map.empty"
  proof -
    let ?st1 = "st\<lparr>duplicateDetector := (duplicateDetector st)(getCacheKey req \<mapsto> tRecord)\<rparr>"
    have l: "lookupStretch parse m st req tRecord tLookup = (None, ?st1)"
      using e by (simp add: lookupStretch_def Let_def lookup_absent)
    have "db ?st1 = Some d" "cache ?st1 = Map.empty" using assms e by simp_all
    then have "cache (snd (upstreamStretch ?st1 req (snd (upstreamHttpRequest post 0 10 2000)) tWrite)) = Map.empty
       \<and> db (snd (upstreamStretch ?st1 req (snd (upstreamHttpRequest post 0 10 2000)) tWrite)) \<noteq> None"
      using upstreamStretch_durable[of ?st1 d req] by simp
    moreover have "\<forall>c. sent (handlePost parse m post st req tCheck random tRecord tLookup tWrite)
                  \<noteq> CachedReply c"
      using handlePost_miss[of parse m st req tRecord tLookup] l by simp
    ultimately show ?thesis by (simp add: handlePost_after l)
  qed
  show ?thesis using w r t h by blast
qed

theorem durable_store_is_never_served_witness:
  "db \<lparr>cache = Map.empty,
       db = Some \<lparr>rows = [''eth_chainId[]'' \<mapsto> \<lparr>row_val = Some ''1'', row_ts = 0\<rparr>], failing = False\<rparr>,
       duplicateDetector = Map.empty\<rparr>
     = Some \<lparr>rows = [''eth_chainId[]'' \<mapsto> \<lparr>row_val = Some ''1'', row_ts = 0\<rparr>], failing = False\<rparr>
   \<and> cache \<lparr>cache = Map.empty,
       db = Some \<lparr>rows = [''eth_chainId[]'' \<mapsto> \<lparr>row_val = Some ''1'', row_ts = 0\<rparr>], failing = False\<rparr>,
       duplicateDetector = Map.empty\<rparr> = Map.empty
   \<and> getFromDb \<lparr>rows = [''eth_chainId[]'' \<mapsto> \<lparr>row_val = Some ''1'', row_ts = 0\<rparr>], failing = False\<rparr>
        ''eth_chainId[]'' = Inr (Some \<lparr>row_val = Some ''1'', row_ts = 0\<rparr>)
   \<and> readFromDb (\<lambda>text. Inr (JNum ''1''))
        \<lparr>cache = Map.empty,
         db = Some \<lparr>rows = [''eth_chainId[]'' \<mapsto> \<lparr>row_val = Some ''1'', row_ts = 0\<rparr>], failing = False\<rparr>,
         duplicateDetector = Map.empty\<rparr>
        \<lparr>rows = [''eth_chainId[]'' \<mapsto> \<lparr>row_val = Some ''1'', row_ts = 0\<rparr>], failing = False\<rparr>
        ''eth_chainId[]'' Infinity 5 = Inl (TypeError ''ts'')
   \<and> getResponseFromCache (\<lambda>text. Inr (JNum ''1''))
        \<lparr>cache = Map.empty,
         db = Some \<lparr>rows = [''eth_chainId[]'' \<mapsto> \<lparr>row_val = Some ''1'', row_ts = 0\<rparr>], failing = False\<rparr>,
         duplicateDetector = Map.empty\<rparr>
        ''eth_chainId[]'' Infinity (Some (JNum ''7'')) 5
     = (None,
        \<lparr>cache = Map.empty,
         db = Some \<lparr>rows = [''eth_chainId[]'' \<mapsto> \<lparr>row_val = Some ''1'', row_ts = 0\<rparr>], failing = False\<rparr>,
         duplicateDetector = Map.empty\<rparr>)
   \<and> (\<forall>c. sent (handlePost (\<lambda>text. Inr (JNum ''1'')) 10 (\<lambda>i. Inr (JObj [(''result'', JNum ''1'')]))
        \<lparr>cache = Map.empty,
         db = Some \<lparr>rows = [''eth_chainId[]'' \<mapsto> \<lparr>row_val = Some ''1'', row_ts = 0\<rparr>], failing = False\<rparr>,
         duplicateDetector = Map.empty\<rparr>
        \<lparr>body_id = Some (JNum ''7''), body_method = Some (JStr ''eth_chainId''),
         body_params = Some (JArr [])\<rparr> 5 0 5 5 5) \<noteq> CachedReply c)"
  using durable_store_is_never_served [where st =
      "\<lparr>cache = Map.empty,
        db = Some \<lparr>rows = [''eth_chainId[]'' \<mapsto> \<lparr>row_val = Some ''1'', row_ts = 0\<rparr>], failing = False\<rparr>,
        duplicateDetector = Map.empty\<rparr>"
      and d = "\<lparr>rows = [''eth_chainId[]'' \<mapsto> \<lparr>row_val = Some ''1'', row_ts = 0\<rparr>], failing = False\<rparr>"
      and key' = "''eth_chainId[]''" and parse = "\<lambda>text. Inr (JNum ''1'')" and maxAgeMs = Infinity
      and row = "\<lparr>row_val = Some ''1'', row_ts = 0\<rparr>"
      and reqId = "Some (JNum ''7'')" and now' = 5
      and m = 10 and post = "\<lambda>i. Inr (JObj [(''result'', JNum ''1'')])"
      and req = "\<lparr>body_id = Some (JNum ''7''), body_method = Some (JStr ''eth_chainId''),
         body_params = Some (JArr [])\<rparr>" and tCheck = 5 and random = 0
      and tRecord = 5 and tLookup = 5 and tWrite = 5]
  by (simp add: getFromDb_def)

section \<open>Methods with immutable results\<close>

text \<open>
  C3. A call of \<^verbatim>\<open>eth_call\<close> whose parameters pin a block by \<^verbatim>\<open>blockHash\<close> is to be
  looked up with an infinite age limit. The handler writes its result to the cache (the
  write condition holds), but looks it up with the configured limit, 10000 ms by
  default: the same request handled again 10001 ms after the write is answered by the
  upstream, not from the cache. For \<^verbatim>\<open>eth_getTransactionReceipt\<close>, which is looked up
  with an infinite limit, the write condition never holds.
\<close>

theorem pinned_eth_call_expires:
  "cacheWritePredicate
      \<lparr>body_id = Some (JNum ''1''), body_method = Some (JStr ''eth_call''),
       body_params = Some (JArr [JObj [(''to'', JStr ''0x01'')],
                                 JObj [(''blockHash'', JStr ''0xab'')]])\<rparr> = Inr True
   \<and> cacheMaxAgeMs (CACHE_MAX_AGE None) (Some (JStr ''eth_call'')) = Finite 10000
   \<and> sent (handlePost (\<lambda>text. Inr JNull) (CACHE_MAX_AGE None)
              (\<lambda>i. Inr (JObj [(''id'', JNum ''1''), (''result'', JStr ''0x2b'')]))
              (after (handlePost (\<lambda>text. Inr JNull) (CACHE_MAX_AGE None)
                 (\<lambda>i. Inr (JObj [(''id'', JNum ''1''), (''result'', JStr ''0x2a'')]))
                 \<lparr>cache = Map.empty, db = None, duplicateDetector = Map.empty\<rparr>
                 \<lparr>body_id = Some (JNum ''1''), body_method = Some (JStr ''eth_call''),
                  body_params = Some (JArr [JObj [(''to'', JStr ''0x01'')],
                                            JObj [(''blockHash'', JStr ''0xab'')]])\<rparr>
                 0 0 0 0 0))
              \<lparr>body_id = Some (JNum ''1''), body_method = Some (JStr ''eth_call''),
               body_params = Some (JArr [JObj [(''to'', JStr ''0x01'')],
                                         JObj [(''blockHash'', JStr ''0xab'')]])\<rparr>
              10001 0 10001 10001 10001)
       = UpstreamReply (JObj [(''id'', JNum ''1''), (''result'', JStr ''0x2b'')])
   \<and> cacheWritePredicate
      \<lparr>body_id = reqId, body_method = Some (JStr ''eth_getTransactionReceipt''),
       body_params = params\<rparr> = Inr False"
proof -
  let ?req = "\<lparr>body_id = Some (JNum ''1''), body_method = Some (JStr ''eth_call''),
       body_params = Some (JArr [JObj [(''to'', JStr ''0x01'')],
                                 JObj [(''blockHash'', JStr ''0xab'')]])\<rparr>"
  let ?st0 = "\<lparr>cache = Map.empty, db = None, duplicateDetector = Map.empty\<rparr>"
  let ?d1 = "JObj [(''id'', JNum ''1''), (''result'', JStr ''0x2a'')]"
  let ?d2 = "JObj [(''id'', JNum ''1''), (''result'', JStr ''0x2b'')]"
  let ?parse = "\<lambda>text :: string option. (Inr JNull :: js_error + json)"
  let ?st1 = "\<lparr>cache = [getCacheKey ?req \<mapsto>
                 \<lparr>val = Some (JStr ''0x2a''), ts = 0, readCnt = 0, writeCnt = 1\<rparr>],
               db = None, duplicateDetector = [getCacheKey ?req \<mapsto> 0]\<rparr>"
  have wp: "cacheWritePredicate ?req = Inr True"
    by (simp add: cacheWritePredicate_def)
  have age: "cacheMaxAgeMs (CACHE_MAX_AGE None) (Some (JStr ''eth_call'')) = Finite 10000"
    by (simp add: cacheMaxAgeMs_def CACHE_MAX_AGE_def)
  have l1: "lookupStretch ?parse (CACHE_MAX_AGE None) ?st0 ?req 0 0 =
              (None, ?st0\<lparr>duplicateDetector := [getCacheKey ?req \<mapsto> 0]\<rparr>)"
    by (simp add: lookupStretch_def Let_def lookup_absent)
  have first: "after (handlePost ?parse (CACHE_MAX_AGE None) (\<lambda>i. Inr ?d1) ?st0 ?req 0 0 0 0 0) = ?st1"
    by (simp add: handlePost_after l1 upstream_success_first upstreamStretch_def wp
        data_result_def write_in_memory)
  have l2: "fst (lookupStretch ?parse (CACHE_MAX_AGE None) ?st1 ?req 10001 10001) = None"
    by (simp add: lookupStretch_reply lookup_served age within_age_def)
  then obtain st2 where l2': "lookupStretch ?parse (CACHE_MAX_AGE None) ?st1 ?req 10001 10001 = (None, st2)"
    by (cases "lookupStretch ?parse (CACHE_MAX_AGE None) ?st1 ?req 10001 10001") simp
  have second: "sent (handlePost ?parse (CACHE_MAX_AGE None) (\<lambda>i. Inr ?d2) ?st1 ?req
                   10001 0 10001 10001 10001) = UpstreamReply ?d2"
    unfolding handlePost_sent l2'
    by (simp add: upstream_success_first upstreamStretch_def wp data_result_def)
  have receipt: "cacheWritePredicate
      \<lparr>body_id = reqId, body_method = Some (JStr ''eth_getTransactionReceipt''),
       body_params = params\<rparr> = Inr False"
    by (simp add: cacheWritePredicate_def)
  show ?thesis using wp age second receipt unfolding first by blast
qed

section \<open>Cache keys\<close>

text \<open>
  C9, as stated: requests with the same method whose parameters are equal as JSON values
  regardless of the order of object members get the same key. Two \<^verbatim>\<open>eth_call\<close>
  requests whose block parameter lists its two members in different orders get
  different keys.
\<close>

theorem member_order_counterexample:
  "body_method \<lparr>body_id = Some (JNum ''1''), body_method = Some (JStr ''eth_call''),
      body_params = Some (JArr [JObj [(''blockHash'', JStr ''0xab''), (''requireCanonical'', JBool True)]])\<rparr>
   = body_method \<lparr>body_id = Some (JNum ''1''), body_method = Some (JStr ''eth_call''),
      body_params = Some (JArr [JObj [(''requireCanonical'', JBool True), (''blockHash'', JStr ''0xab'')]])\<rparr>
   \<and> json_same (JArr [JObj [(''blockHash'', JStr ''0xab''), (''requireCanonical'', JBool True)]])
               (JArr [JObj [(''requireCanonical'', JBool True), (''blockHash'', JStr ''0xab'')]])
   \<and> getCacheKey \<lparr>body_id = Some (JNum ''1''), body_method = Some (JStr ''eth_call''),
      body_params = Some (JArr [JObj [(''blockHash'', JStr ''0xab''), (''requireCanonical'', JBool True)]])\<rparr>
     \<noteq> getCacheKey \<lparr>body_id = Some (JNum ''1''), body_method = Some (JStr ''eth_call''),
      body_params = Some (JArr [JObj [(''requireCanonical'', JBool True), (''blockHash'', JStr ''0xab'')]])\<rparr>"
proof -
  have "json_same (JArr [JObj [(''blockHash'', JStr ''0xab''), (''requireCanonical'', JBool True)]])
               (JArr [JObj [(''requireCanonical'', JBool True), (''blockHash'', JStr ''0xab'')]])"
    by (intro same_arr json_same_elems_same_member_in_members_sub.elems_cons elems_nil same_obj sub_cons sub_nil
        member_here member_there[OF member_here] same_str same_bool)
  then show ?thesis
    by (simp add: getCacheKey_def interpolate_def stringify_opt_def quoteJSONString_def quoteJSONChar_def)
qed

text \<open>
  C9, amended. The cache key depends on the method and the parameters only: requests
  with equal methods and equal parameters, the order of object members included, get the
  same key. Two requests whose results are written to the cache and that differ in the
  method or in the parameters get different keys (for parameters whose numbers are
  well-formed renderings).
\<close>

theorem cache_key_identifies_call:
  "(body_method r1 = body_method r2 \<and> body_params r1 = body_params r2
      \<longrightarrow> getCacheKey r1 = getCacheKey r2)
   \<and> (cacheable r1 \<and> cacheable r2 \<and> wf_params r1 \<and> wf_params r2 \<and> call_of r1 \<noteq> call_of r2
      \<longrightarrow> getCacheKey r1 \<noteq> getCacheKey r2)"
proof -
  have same: "getCacheKey r1 = getCacheKey r2"
    if "body_method r1 = body_method r2" "body_params r1 = body_params r2"
    using that by (simp add: getCacheKey_def)
  have distinct: "call_of r1 = call_of r2"
    if c: "cacheable r1" "cacheable r2" and w: "wf_params r1" "wf_params r2"
      and k: "getCacheKey r1 = getCacheKey r2"
  proof -
    obtain m1 where m1: "body_method r1 = Some (JStr m1)"
      "m1 \<in> {''eth_chainId'', ''eth_blockNumber'', ''net_version'', ''eth_call''}"
      using cacheable_method[OF c(1)] by auto
    obtain m2 where m2: "body_method r2 = Some (JStr m2)"
      "m2 \<in> {''eth_chainId'', ''eth_blockNumber'', ''net_version'', ''eth_call''}"
      using cacheable_method[OF c(2)] by auto
    let ?p1 = "case stringify_opt (body_params r1) of None \<Rightarrow> ''undefined'' | Some s \<Rightarrow> s"
    let ?p2 = "case stringify_opt (body_params r2) of None \<Rightarrow> ''undefined'' | Some s \<Rightarrow> s"
    have "m1 @ ?p1 = m2 @ ?p2"
      using k m1(1) m2(1) by (simp add: getCacheKey_def interpolate_def)
    then have "m1 = m2" "?p1 = ?p2" using method_prefix[OF m1(2) m2(2)] by blast+
    then show ?thesis using params_text_inj[OF w] m1(1) m2(1) by (simp add: call_of_def)
  qed
  show ?thesis using same distinct by blast
qed

theorem cache_key_identifies_call_witness:
  "cacheable \<lparr>body_id = Some (JNum ''1''), body_method = Some (JStr ''eth_call''),
              body_params = Some (JArr [JObj [(''blockHash'', JStr ''0xab'')]])\<rparr>
   \<and> cacheable \<lparr>body_id = Some (JNum ''1''), body_method = Some (JStr ''eth_call''),
              body_params = Some (JArr [JObj [(''blockHash'', JStr ''0xac'')]])\<rparr>
   \<and> wf_params \<lparr>body_id = Some (JNum ''1''), body_method = Some (JStr ''eth_call''),
              body_params = Some (JArr [JObj [(''blockHash'', JStr ''0xab'')]])\<rparr>
   \<and> wf_params \<lparr>body_id = Some (JNum ''1''), body_method = Some (JStr ''eth_call''),
              body_params = Some (JArr [JObj [(''blockHash'', JStr ''0xac'')]])\<rparr>
   \<and> call_of \<lparr>body_id = Some (JNum ''1''), body_method = Some (JStr ''eth_call''),
              body_params = Some (JArr [JObj [(''blockHash'', JStr ''0xab'')]])\<rparr>
     \<noteq> call_of \<lparr>body_id = Some (JNum ''1''), body_method = Some (JStr ''eth_call''),
              body_params = Some (JArr [JObj [(''blockHash'', JStr ''0xac'')]])\<rparr>
   \<and> getCacheKey \<lparr>body_id = Some (JNum ''1''), body_method = Some (JStr ''eth_call''),
              body_params = Some (JArr [JObj [(''blockHash'', JStr ''0xab'')]])\<rparr>
     \<noteq> getCacheKey \<lparr>body_id = Some (JNum ''1''), body_method = Some (JStr ''eth_call''),
              body_params = Some (JArr [JObj [(''blockHash'', JStr ''0xac'')]])\<rparr>
   \<and> getCacheKey \<lparr>body_id = Some (JNum ''1''), body_method = Some (JStr ''eth_call''),
              body_params = Some (JArr [JObj [(''blockHash'', JStr ''0xab'')]])\<rparr>
     = getCacheKey \<lparr>body_id = Some (JNum ''2''), body_method = Some (JStr ''eth_call''),
              body_params = Some (JArr [JObj [(''blockHash'', JStr ''0xab'')]])\<rparr>"
  using cache_key_identifies_call [of
      "\<lparr>body_id = Some (JNum ''1''), body_method = Some (JStr ''eth_call''),
              body_params = Some (JArr [JObj [(''blockHash'', JStr ''0xab'')]])\<rparr>"
      "\<lparr>body_id = Some (JNum ''1''), body_method = Some (JStr ''eth_call''),
              body_params = Some (JArr [JObj [(''blockHash'', JStr ''0xac'')]])\<rparr>"]
    cache_key_identifies_call [of
      "\<lparr>body_id = Some (JNum ''1''), body_method = Some (JStr ''eth_call''),
              body_params = Some (JArr [JObj [(''blockHash'', JStr ''0xab'')]])\<rparr>"
      "\<lparr>body_id = Some (JNum ''2''), body_method = Some (JStr ''eth_call''),
              body_params = Some (JArr [JObj [(''blockHash'', JStr ''0xab'')]])\<rparr>"]
  by (simp add: cacheable_def cacheWritePredicate_def wf_params_def call_of_def)

end
